theory Spec2Isabelle
  imports Main
begin

section \<open>Strings\<close>

text \<open>
  Go's \<^verbatim>\<open>strings.ToLower\<close> on the UTF-8 bytes of a name. The ASCII capitals are
  folded; the code point U+0130 (bytes C4 B0) becomes "i" and U+212A (bytes E2 84 AA) becomes
  "k": these two are the only code points beyond ASCII that Go lowers to an ASCII character.
  Every other code point beyond ASCII is lowered to a code point beyond ASCII again; its
  bytes are left as they are here, which does not change whether the result is equal to
  an ASCII string, the one use the parsers make of it.
\<close>

definition lower_char :: "char \<Rightarrow> char" where
  "lower_char c =
     (case map_of (zip ''ABCDEFGHIJKLMNOPQRSTUVWXYZ'' ''abcdefghijklmnopqrstuvwxyz'') c of
        None \<Rightarrow> c
      | Some d \<Rightarrow> d)"

fun ToLower :: "string \<Rightarrow> string" where
  "ToLower (a # b # c # cs) =
     (if a = CHR 0xC4 \<and> b = CHR 0xB0 then CHR ''i'' # ToLower (c # cs)
      else if a = CHR 0xE2 \<and> b = CHR 0x84 \<and> c = CHR 0xAA then CHR ''k'' # ToLower cs
      else lower_char a # ToLower (b # c # cs))"
| "ToLower [a, b] =
     (if a = CHR 0xC4 \<and> b = CHR 0xB0 then ''i'' else [lower_char a, lower_char b])"
| "ToLower [a] = [lower_char a]"
| "ToLower [] = []"

declare ToLower.simps [simp del]

section \<open>The XML cursor\<close>

text \<open>
  The tokenizer (Go's \<^verbatim>\<open>encoding/xml\<close> decoder under the pull parser of
  \<^verbatim>\<open>goxpp\<close>) is an external primitive. A document is the sequence of tokens the
  decoder produces for it. \<open>Malformed\<close> stands for the place where the decoder reports a
  syntax error; the end of the list is the end of the input.
\<close>

datatype Attr = Attr (AttrSpace: string) (Local: string) (Value: string)

datatype xtoken =
    StartElement string string "Attr list"
  | EndElement string string
  | CharData string
  | CommentTok
  | ProcInst
  | DirectiveTok
  | Malformed

datatype XMLEventType =
    StartDocument | EndDocument | StartTag | EndTag | Text
  | Comment | ProcessingInstruction | Directive

datatype error =
    SyntaxError
  | RootNotFound
  | TagNotFound
  | ExpectError XMLEventType string
  | TextError
  | DateError
  | NilDereference

record XMLPullParser =
  Event :: XMLEventType
  Attrs :: "Attr list"
  Name :: string
  Space :: string
  decoder :: "xtoken list"

definition NewXMLPullParser :: "xtoken list \<Rightarrow> XMLPullParser" where
  "NewXMLPullParser feed =
     \<lparr>Event = StartDocument, Attrs = [], Name = [], Space = [], decoder = feed\<rparr>"

text \<open>
  Modelled from the spec: the cursor primitive "expect-start(tag)" / "expect-end(tag)" of the
  external pull parser. It compares the current event and the lower-cased current name with
  the expected ones and consumes nothing; \<open>None\<close> is Go's nil error.
\<close>

definition Expect :: "XMLEventType \<Rightarrow> string \<Rightarrow> XMLPullParser \<Rightarrow> error option" where
  "Expect event name p =
     (if Event p = event \<and> (ToLower (Name p) = ToLower name \<or> name = ''*'')
      then None else Some (ExpectError event name))"

text \<open>
  Modelled from the spec: the cursor primitive "read-attribute(name)" of the external pull
  parser: the value of the first attribute whose local name is \<open>name\<close>, letter for letter,
  the empty string when there is none.
\<close>

fun attribute_of :: "Attr list \<Rightarrow> string \<Rightarrow> string" where
  "attribute_of [] name = []"
| "attribute_of (a # as) name =
     (if Local a = name then Value a else attribute_of as name)"

definition Attribute :: "XMLPullParser \<Rightarrow> string \<Rightarrow> string" where
  "Attribute p name = attribute_of (Attrs p) name"

text \<open>
  Modelled from the spec: the cursor primitive "next-significant-token" as the helper
  \<^verbatim>\<open>shared.NextTag\<close> (absent from the sources) uses it: text, comments,
  processing instructions and directives are passed over until a start or an end tag is
  the current token; the end of the input and a syntax error are errors.
\<close>

fun next_tag :: "xtoken list \<Rightarrow> error + (XMLEventType \<times> XMLPullParser)" where
  "next_tag [] = Inl TagNotFound"
| "next_tag (StartElement s n as # ts) =
     Inr (StartTag, \<lparr>Event = StartTag, Attrs = as, Name = n, Space = s, decoder = ts\<rparr>)"
| "next_tag (EndElement s n # ts) =
     Inr (EndTag, \<lparr>Event = EndTag, Attrs = [], Name = n, Space = [], decoder = ts\<rparr>)"
| "next_tag (Malformed # ts) = Inl SyntaxError"
| "next_tag (t # ts) = next_tag ts"

definition NextTag :: "XMLPullParser \<Rightarrow> error + (XMLEventType \<times> XMLPullParser)" where
  "NextTag p = next_tag (decoder p)"

text \<open>
  Modelled from the spec: the helper \<^verbatim>\<open>shared.FindRoot\<close> (absent from the sources),
  which "reads only as far as the document's root start element (skipping prolog, comments,
  whitespace)" and fails when the input ends, or is malformed, before a start element.
\<close>

fun find_root :: "xtoken list \<Rightarrow> error + (XMLEventType \<times> XMLPullParser)" where
  "find_root [] = Inl RootNotFound"
| "find_root (StartElement s n as # ts) =
     Inr (StartTag, \<lparr>Event = StartTag, Attrs = as, Name = n, Space = s, decoder = ts\<rparr>)"
| "find_root (Malformed # ts) = Inl SyntaxError"
| "find_root (t # ts) = find_root ts"

definition FindRoot :: "XMLPullParser \<Rightarrow> error + (XMLEventType \<times> XMLPullParser)" where
  "FindRoot p = find_root (decoder p)"

text \<open>
  Modelled from the spec: the element the cursor stands in, cut out of the input. At nesting
  depth \<open>d\<close> the tokens up to the end tag that closes the current element are the content;
  the result is the content, the closing tag's name and the input after it, or \<open>None\<close>
  when the input ends or is malformed before the element is closed.
\<close>

fun subtree :: "nat \<Rightarrow> xtoken list \<Rightarrow> (xtoken list \<times> string \<times> xtoken list) option" where
  "subtree d [] = None"
| "subtree d (Malformed # ts) = None"
| "subtree d (StartElement s n as # ts) =
     map_option (\<lambda>(c, r). (StartElement s n as # c, r)) (subtree (Suc d) ts)"
| "subtree d (EndElement s n # ts) =
     (case d of
        0 \<Rightarrow> Some ([], n, ts)
      | Suc d' \<Rightarrow> map_option (\<lambda>(c, r). (EndElement s n # c, r)) (subtree d' ts))"
| "subtree d (t # ts) = map_option (\<lambda>(c, r). (t # c, r)) (subtree d ts)"

text \<open>
  Modelled from the spec: the cursor primitive "skip (consumes one full subtree unread)".
  Its error is discarded at every call in the sources, so the model returns the cursor only:
  after the subtree on success; when the input ends or is malformed inside the subtree, at
  that place, where every later read fails again.
\<close>

definition Skip :: "XMLPullParser \<Rightarrow> XMLPullParser" where
  "Skip p =
     (case subtree 0 (decoder p) of
        None \<Rightarrow>
          \<lparr>Event = Event p, Attrs = [], Name = [], Space = [],
           decoder = dropWhile (\<lambda>t. t \<noteq> Malformed) (decoder p)\<rparr>
      | Some (c, n, ts) \<Rightarrow> \<lparr>Event = EndTag, Attrs = [], Name = n, Space = [], decoder = ts\<rparr>)"

section \<open>The helpers of the shared package\<close>

record Time =
  instant :: int
  zone :: int

definition UTC :: "Time \<Rightarrow> Time" where
  "UTC t = t\<lparr>zone := 0\<rparr>"

text \<open>
  Modelled from the spec: the parts of \<^verbatim>\<open>internal/shared\<close> (absent from the sources)
  whose results the parsers only pass on. \<open>recognizes\<close> is the extension capability's
  "recognizes(namespace)", \<open>inner_text\<close> turns the content of an element into its text
  (the "read-text" primitive), \<open>ParseDate\<close> is the best-effort date parser.
\<close>

record Shared =
  recognizes :: "string \<Rightarrow> bool"
  inner_text :: "xtoken list \<Rightarrow> error + string"
  ParseDate :: "string \<Rightarrow> error + Time"

definition IsExtension :: "Shared \<Rightarrow> XMLPullParser \<Rightarrow> bool" where
  "IsExtension C p = recognizes C (Space p)"

text \<open>
  Modelled from the spec: \<^verbatim>\<open>shared.ParseText\<close> (absent from the sources), the
  "read-text" primitive: it must stand on a start tag, consumes the element up to its end
  tag and returns the text of its content.
\<close>

definition ParseText :: "Shared \<Rightarrow> XMLPullParser \<Rightarrow> error + (string \<times> XMLPullParser)" where
  "ParseText C p =
     (if Event p \<noteq> StartTag then Inl (ExpectError StartTag ''*'')
      else case subtree 0 (decoder p) of
        None \<Rightarrow> Inl SyntaxError
      | Some (c, n, ts) \<Rightarrow>
          (case inner_text C c of
             Inl err \<Rightarrow> Inl err
           | Inr result \<Rightarrow>
               Inr (result,
                 \<lparr>Event = EndTag, Attrs = [], Name = Name p, Space = [], decoder = ts\<rparr>)))"

text \<open>
  Modelled from the spec: \<^verbatim>\<open>shared.ParseExtension\<close> (absent from the sources), the
  extension capability: "given a namespace-qualified element and the current accumulator,
  returns an updated accumulator or an error". The accumulator is opaque to the parsers; the
  model keeps one entry (namespace, name, content) per extension element, in order.
\<close>

type_synonym Extensions = "(string \<times> string \<times> xtoken list) list"

definition ParseExtension ::
  "Extensions \<Rightarrow> XMLPullParser \<Rightarrow> error + (Extensions \<times> XMLPullParser)" where
  "ParseExtension fe p =
     (case subtree 0 (decoder p) of
        None \<Rightarrow> Inl SyntaxError
      | Some (c, n, ts) \<Rightarrow>
          Inr (fe @ [(Space p, Name p, c)],
            \<lparr>Event = EndTag, Attrs = [], Name = n, Space = [], decoder = ts\<rparr>))"

section \<open>The Sitemap data model\<close>

record Image =
  Link :: string

record Item =
  Title :: string
  Link :: string
  Image :: "Image option"
  PubDate :: string
  PubDateParsed :: "Time option"
  Extensions :: "Extensions option"

record Feed =
  Title :: string
  Items :: "Item list"
  Language :: string
  Version :: string

record News =
  Name :: string
  Title :: string
  Language :: string
  PublicationDate :: string

text \<open>Go's zero values \<^verbatim>\<open>&Item{}\<close>, \<^verbatim>\<open>&Feed{}\<close>, \<^verbatim>\<open>&News{}\<close>, \<^verbatim>\<open>&Image{}\<close>.\<close>

definition new_Item :: Item where
  "new_Item = \<lparr>Item.Title = [], Link = [], Image = None, PubDate = [],
     PubDateParsed = None, Extensions = None\<rparr>"

definition new_Feed :: Feed where
  "new_Feed = \<lparr>Feed.Title = [], Items = [], Language = [], Version = []\<rparr>"

definition new_News :: News where
  "new_News = \<lparr>News.Name = [], Title = [], Language = [], PublicationDate = []\<rparr>"

definition new_Image :: Image where
  "new_Image = \<lparr>Image.Link = []\<rparr>"

section \<open>Progress of the cursor\<close>

lemma next_tag_shorter:
  "next_tag ts = Inr (tok, p) \<Longrightarrow> length (decoder p) < length ts"
  by (induction ts rule: next_tag.induct) auto

lemma NextTag_shorter:
  "NextTag p = Inr (tok, p') \<Longrightarrow> length (decoder p') < length (decoder p)"
  by (simp add: NextTag_def next_tag_shorter)

lemma subtree_shorter:
  "subtree d ts = Some (c, n, r) \<Longrightarrow> length r < length ts"
  by (induction d ts arbitrary: c rule: subtree.induct)
     (fastforce split: nat.splits)+

lemma Skip_shorter: "length (decoder (Skip p)) \<le> length (decoder p)"
  using subtree_shorter [of 0 "decoder p"]
  by (auto simp: Skip_def less_imp_le length_dropWhile_le split: option.splits)

lemma ParseText_shorter:
  "ParseText C p = Inr (s, p') \<Longrightarrow> length (decoder p') < length (decoder p)"
  using subtree_shorter [of 0 "decoder p"]
  by (auto simp: ParseText_def split: if_splits option.splits sum.splits)

lemma ParseExtension_shorter:
  "ParseExtension fe p = Inr (fe', p') \<Longrightarrow> length (decoder p') < length (decoder p)"
  using subtree_shorter [of 0 "decoder p"]
  by (auto simp: ParseExtension_def split: option.splits)

section \<open>The Sitemap parser\<close>

text \<open>
  Every parser of \<^verbatim>\<open>sitemap/parse.go\<close> is an endless \<^verbatim>\<open>for\<close> loop around
  \<^verbatim>\<open>shared.NextTag\<close>, between an \<^verbatim>\<open>Expect\<close> of the start tag and one of the end
  tag. The loop is the recursive function, the values it updates are its arguments; an error
  return is \<open>Inl\<close>. Each round consumes input, which is the termination argument.
\<close>

function parsePublication_loop ::
  "Shared \<Rightarrow> News \<Rightarrow> XMLPullParser \<Rightarrow> error + (News \<times> XMLPullParser)" where
  "parsePublication_loop C news p =
     (case NextTag p of
        Inl err \<Rightarrow> Inl err
      | Inr (tok, p1) \<Rightarrow>
          if tok = EndTag then Inr (news, p1)
          else if tok = StartTag then
            (let name = ToLower (XMLPullParser.Name p1) in
             if name = ''name'' then
               (case ParseText C p1 of
                  Inl err \<Rightarrow> Inl err
                | Inr (result, p2) \<Rightarrow>
                    parsePublication_loop C (news\<lparr>News.Name := result\<rparr>) p2)
             else if name = ''language'' then
               (case ParseText C p1 of
                  Inl err \<Rightarrow> Inl err
                | Inr (result, p2) \<Rightarrow>
                    parsePublication_loop C (news\<lparr>News.Language := result\<rparr>) p2)
             else parsePublication_loop C news (Skip p1))
          else parsePublication_loop C news p1)"
  by pat_completeness auto
termination
  by (relation "measure (\<lambda>(C, news, p). length (decoder p))")
     (auto dest!: NextTag_shorter ParseText_shorter
        intro: le_less_trans [OF Skip_shorter])

declare parsePublication_loop.simps [simp del]

definition parsePublication :: "Shared \<Rightarrow> XMLPullParser \<Rightarrow> error + (News \<times> XMLPullParser)" where
  "parsePublication C p =
     (case Expect StartTag ''publication'' p of
        Some err \<Rightarrow> Inl err
      | None \<Rightarrow>
          (case parsePublication_loop C new_News p of
             Inl err \<Rightarrow> Inl err
           | Inr (news, p1) \<Rightarrow>
               (case Expect EndTag ''publication'' p1 of
                  Some err \<Rightarrow> Inl err
                | None \<Rightarrow> Inr (news, p1))))"

lemma parsePublication_loop_shorter:
  "parsePublication_loop C news p = Inr (news', p') \<Longrightarrow>
     length (decoder p') < length (decoder p)"
proof (induction "length (decoder p)" arbitrary: news p rule: less_induct)
  case less
  note IH = less.hyps
  from less.prems show ?case
    apply (subst (asm) parsePublication_loop.simps)
    apply (clarsimp split: sum.splits prod.splits if_splits simp: Let_def)
    apply (metis IH NextTag_shorter ParseText_shorter Skip_shorter le_less_trans less_trans)+
    done
qed

lemma parsePublication_shorter:
  "parsePublication C p = Inr (news, p') \<Longrightarrow> length (decoder p') < length (decoder p)"
  by (auto simp: parsePublication_def split: option.splits sum.splits
      dest: parsePublication_loop_shorter)

function parseImage_loop ::
  "Shared \<Rightarrow> Image \<Rightarrow> XMLPullParser \<Rightarrow> error + (Image \<times> XMLPullParser)" where
  "parseImage_loop C img p =
     (case NextTag p of
        Inl err \<Rightarrow> Inl err
      | Inr (tok, p1) \<Rightarrow>
          if tok = EndTag then Inr (img, p1)
          else if tok = StartTag then
            (let name = ToLower (XMLPullParser.Name p1) in
             if name = ''loc'' then
               (case ParseText C p1 of
                  Inl err \<Rightarrow> Inl err
                | Inr (result, p2) \<Rightarrow>
                    parseImage_loop C (img\<lparr>Image.Link := result\<rparr>) p2)
             else parseImage_loop C img (Skip p1))
          else parseImage_loop C img p1)"
  by pat_completeness auto
termination
  by (relation "measure (\<lambda>(C, img, p). length (decoder p))")
     (auto dest!: NextTag_shorter ParseText_shorter
        intro: le_less_trans [OF Skip_shorter])

declare parseImage_loop.simps [simp del]

definition parseImage :: "Shared \<Rightarrow> XMLPullParser \<Rightarrow> error + (Image \<times> XMLPullParser)" where
  "parseImage C p =
     (case Expect StartTag ''image'' p of
        Some err \<Rightarrow> Inl err
      | None \<Rightarrow>
          (case parseImage_loop C new_Image p of
             Inl err \<Rightarrow> Inl err
           | Inr (img, p1) \<Rightarrow>
               (case Expect EndTag ''image'' p1 of
                  Some err \<Rightarrow> Inl err
                | None \<Rightarrow> Inr (img, p1))))"

lemma parseImage_loop_shorter:
  "parseImage_loop C img p = Inr (img', p') \<Longrightarrow>
     length (decoder p') < length (decoder p)"
proof (induction "length (decoder p)" arbitrary: img p rule: less_induct)
  case less
  note IH = less.hyps
  from less.prems show ?case
    apply (subst (asm) parseImage_loop.simps)
    apply (clarsimp split: sum.splits prod.splits if_splits simp: Let_def)
    apply (metis IH NextTag_shorter ParseText_shorter Skip_shorter le_less_trans less_trans)+
    done
qed

lemma parseImage_shorter:
  "parseImage C p = Inr (img, p') \<Longrightarrow> length (decoder p') < length (decoder p)"
  by (auto simp: parseImage_def split: option.splits sum.splits
      dest: parseImage_loop_shorter)

function parseNews_loop ::
  "Shared \<Rightarrow> News \<Rightarrow> XMLPullParser \<Rightarrow> error + (News \<times> XMLPullParser)" where
  "parseNews_loop C news p =
     (case NextTag p of
        Inl err \<Rightarrow> Inl err
      | Inr (tok, p1) \<Rightarrow>
          if tok = EndTag then Inr (news, p1)
          else if tok = StartTag then
            (let name = ToLower (XMLPullParser.Name p1) in
             if name = ''publication'' then
               (case parsePublication C p1 of
                  Inl err \<Rightarrow> Inl err
                | Inr (result, p2) \<Rightarrow>
                    parseNews_loop C
                      (news\<lparr>News.Name := News.Name result,
                         News.Language := News.Language result\<rparr>) p2)
             else if name = ''publication_date'' then
               (case ParseText C p1 of
                  Inl err \<Rightarrow> Inl err
                | Inr (result, p2) \<Rightarrow>
                    parseNews_loop C (news\<lparr>PublicationDate := result\<rparr>) p2)
             else if name = ''title'' then
               (case ParseText C p1 of
                  Inl err \<Rightarrow> Inl err
                | Inr (result, p2) \<Rightarrow>
                    parseNews_loop C (news\<lparr>News.Title := result\<rparr>) p2)
             else parseNews_loop C news (Skip p1))
          else parseNews_loop C news p1)"
  by pat_completeness auto
termination
  by (relation "measure (\<lambda>(C, news, p). length (decoder p))")
     (auto dest!: NextTag_shorter ParseText_shorter parsePublication_shorter
        intro: le_less_trans [OF Skip_shorter])

declare parseNews_loop.simps [simp del]

definition parseNews :: "Shared \<Rightarrow> XMLPullParser \<Rightarrow> error + (News \<times> XMLPullParser)" where
  "parseNews C p =
     (case Expect StartTag ''news'' p of
        Some err \<Rightarrow> Inl err
      | None \<Rightarrow>
          (case parseNews_loop C new_News p of
             Inl err \<Rightarrow> Inl err
           | Inr (news, p1) \<Rightarrow>
               (case Expect EndTag ''news'' p1 of
                  Some err \<Rightarrow> Inl err
                | None \<Rightarrow> Inr (news, p1))))"

lemma parseNews_loop_shorter:
  "parseNews_loop C news p = Inr (news', p') \<Longrightarrow>
     length (decoder p') < length (decoder p)"
proof (induction "length (decoder p)" arbitrary: news p rule: less_induct)
  case less
  note IH = less.hyps
  from less.prems show ?case
    apply (subst (asm) parseNews_loop.simps)
    apply (clarsimp split: sum.splits prod.splits if_splits simp: Let_def)
    apply (metis IH NextTag_shorter ParseText_shorter parsePublication_shorter
        Skip_shorter le_less_trans less_trans)+
    done
qed

lemma parseNews_shorter:
  "parseNews C p = Inr (news, p') \<Longrightarrow> length (decoder p') < length (decoder p)"
  by (auto simp: parseNews_def split: option.splits sum.splits
      dest: parseNews_loop_shorter)

text \<open>
  \<^verbatim>\<open>parseItem\<close>. The map \<^verbatim>\<open>extensions\<close> is updated in place by the extension
  capability and handed back, so after a call the local variable and the returned
  accumulator are the same map: the loop carries the returned one on. A second
  \<^verbatim>\<open>loc\<close> after a non-empty link takes the \<^verbatim>\<open>continue\<close> of the source, which
  reads on without consuming the element.
\<close>

function parseItem_loop ::
  "Shared \<Rightarrow> Item \<Rightarrow> Feed \<Rightarrow> Extensions \<Rightarrow> XMLPullParser \<Rightarrow>
     error + (Item \<times> Feed \<times> Extensions \<times> XMLPullParser)" where
  "parseItem_loop C item feed extensions p =
     (case NextTag p of
        Inl err \<Rightarrow> Inl err
      | Inr (tok, p1) \<Rightarrow>
          if tok = EndTag then Inr (item, feed, extensions, p1)
          else if tok = StartTag then
            (let name = ToLower (XMLPullParser.Name p1) in
             if IsExtension C p1 then
               (case ParseExtension extensions p1 of
                  Inl err \<Rightarrow> Inl err
                | Inr (ext, p2) \<Rightarrow>
                    parseItem_loop C (item\<lparr>Extensions := Some ext\<rparr>) feed ext p2)
             else if name = ''news'' then
               (case parseNews C p1 of
                  Inl err \<Rightarrow> Inl err
                | Inr (result, p2) \<Rightarrow>
                    (let item1 = item\<lparr>Item.Title := News.Title result,
                           PubDate := PublicationDate result\<rparr>;
                         item2 = (case ParseDate C (PublicationDate result) of
                                    Inr date \<Rightarrow> item1\<lparr>PubDateParsed := Some (UTC date)\<rparr>
                                  | Inl err \<Rightarrow> item1);
                         feed1 = feed\<lparr>Feed.Title := News.Name result,
                           Feed.Language := News.Language result\<rparr>
                     in parseItem_loop C item2 feed1 extensions p2))
             else if name = ''loc'' then
               (if length (Item.Link item) > 0 then parseItem_loop C item feed extensions p1
                else
                  (case ParseText C p1 of
                     Inl err \<Rightarrow> Inl err
                   | Inr (result, p2) \<Rightarrow>
                       parseItem_loop C (item\<lparr>Item.Link := result\<rparr>) feed extensions p2))
             else if name = ''image'' then
               (case parseImage C p1 of
                  Inl err \<Rightarrow> Inl err
                | Inr (result, p2) \<Rightarrow>
                    parseItem_loop C (item\<lparr>Image := Some result\<rparr>) feed extensions p2)
             else parseItem_loop C item feed extensions (Skip p1))
          else parseItem_loop C item feed extensions p1)"
  by pat_completeness auto
termination
  by (relation "measure (\<lambda>(C, item, feed, extensions, p). length (decoder p))")
     (auto dest!: NextTag_shorter ParseText_shorter ParseExtension_shorter
        parseNews_shorter parseImage_shorter
        intro: le_less_trans [OF Skip_shorter])

declare parseItem_loop.simps [simp del]

definition parseItem ::
  "Shared \<Rightarrow> XMLPullParser \<Rightarrow> error + (Item \<times> Feed \<times> XMLPullParser)" where
  "parseItem C p =
     (case Expect StartTag ''url'' p of
        Some err \<Rightarrow> Inl err
      | None \<Rightarrow>
          (case parseItem_loop C new_Item new_Feed [] p of
             Inl err \<Rightarrow> Inl err
           | Inr (item, feed, extensions, p1) \<Rightarrow>
               (let item1 = (if length extensions > 0
                             then item\<lparr>Extensions := Some extensions\<rparr> else item)
                in case Expect EndTag ''url'' p1 of
                     Some err \<Rightarrow> Inl err
                   | None \<Rightarrow> Inr (item1, feed, p1))))"

lemma parseItem_loop_shorter:
  "parseItem_loop C item feed extensions p = Inr (item', feed', extensions', p') \<Longrightarrow>
     length (decoder p') < length (decoder p)"
proof (induction "length (decoder p)" arbitrary: item feed extensions p rule: less_induct)
  case less
  note IH = less.hyps
  from less.prems show ?case
    apply (subst (asm) parseItem_loop.simps)
    apply (clarsimp split: sum.splits prod.splits if_splits simp: Let_def)
    apply (metis IH NextTag_shorter ParseText_shorter ParseExtension_shorter
        parseNews_shorter parseImage_shorter Skip_shorter le_less_trans less_trans)+
    done
qed

lemma parseItem_shorter:
  "parseItem C p = Inr (item, feed, p') \<Longrightarrow> length (decoder p') < length (decoder p)"
  by (auto simp: parseItem_def Let_def split: option.splits sum.splits
      dest: parseItem_loop_shorter)

definition parseVersion :: "XMLPullParser \<Rightarrow> string" where
  "parseVersion p =
     (let name = ToLower (XMLPullParser.Name p) in
      if name = ''urlset'' then
        (let ns = Attribute p ''xmlns'' in
         if ns = ''http://www.sitemaps.org/schemas/sitemap/0.9'' then ''0.9'' else ''unknow'')
      else ''unknow'')"

text \<open>
  \<^verbatim>\<open>parseRoot\<close>. The local \<^verbatim>\<open>channel\<close> is a pointer: \<open>None\<close> is nil, and it starts
  as \<^verbatim>\<open>&Feed{}\<close>. An assignment through a nil pointer panics, which is the error
  \<open>NilDereference\<close> here.
\<close>

definition assign_Title :: "Feed option \<Rightarrow> string \<Rightarrow> error + Feed option" where
  "assign_Title channel v =
     (case channel of
        None \<Rightarrow> Inl NilDereference
      | Some ch \<Rightarrow> Inr (Some (ch\<lparr>Feed.Title := v\<rparr>)))"

definition assign_Language :: "Feed option \<Rightarrow> string \<Rightarrow> error + Feed option" where
  "assign_Language channel v =
     (case channel of
        None \<Rightarrow> Inl NilDereference
      | Some ch \<Rightarrow> Inr (Some (ch\<lparr>Feed.Language := v\<rparr>)))"

function parseRoot_loop ::
  "Shared \<Rightarrow> Feed option \<Rightarrow> Item list \<Rightarrow> XMLPullParser \<Rightarrow>
     error + (Feed option \<times> Item list \<times> XMLPullParser)" where
  "parseRoot_loop C channel items p =
     (case NextTag p of
        Inl err \<Rightarrow> Inl err
      | Inr (tok, p1) \<Rightarrow>
          if tok = EndTag then Inr (channel, items, p1)
          else if tok = StartTag then
            (if IsExtension C p1 then parseRoot_loop C channel items (Skip p1)
             else
               (let name = ToLower (XMLPullParser.Name p1) in
                if name = ''url'' then
                  (case parseItem C p1 of
                     Inl err \<Rightarrow> Inl err
                   | Inr (item, feed, p2) \<Rightarrow>
                       (let items1 = items @ [item] in
                        if channel = None then
                          (case assign_Title channel
                                  (if Feed.Title feed \<noteq> [] then Feed.Title feed
                                   else ''unkonow'') of
                             Inl err \<Rightarrow> Inl err
                           | Inr channel1 \<Rightarrow>
                               (case assign_Language channel1
                                       (if Feed.Language feed \<noteq> [] then Feed.Language feed
                                        else ''unknow'') of
                                  Inl err \<Rightarrow> Inl err
                                | Inr channel2 \<Rightarrow> parseRoot_loop C channel2 items1 p2))
                        else parseRoot_loop C channel items1 p2))
                else parseRoot_loop C channel items (Skip p1)))
          else parseRoot_loop C channel items p1)"
  by pat_completeness auto
termination
  by (relation "measure (\<lambda>(C, channel, items, p). length (decoder p))")
     (auto dest!: NextTag_shorter parseItem_shorter
        intro: le_less_trans [OF Skip_shorter])

declare parseRoot_loop.simps [simp del]

definition parseRoot :: "Shared \<Rightarrow> XMLPullParser \<Rightarrow> error + Feed" where
  "parseRoot C p =
     (case Expect StartTag ''urlset'' p of
        Some sitemapErr \<Rightarrow> Inl sitemapErr
      | None \<Rightarrow>
          (let channel = Some new_Feed;
               items = [];
               ver = parseVersion p
           in case parseRoot_loop C channel items p of
                Inl err \<Rightarrow> Inl err
              | Inr (channel1, items1, p1) \<Rightarrow>
                  (case Expect EndTag ''urlset'' p1 of
                     Some sitemapErr \<Rightarrow> Inl sitemapErr
                   | None \<Rightarrow>
                       (let channel2 = (if channel1 = None
                                        then Some (new_Feed\<lparr>Items := []\<rparr>) else channel1)
                        in case channel2 of
                             None \<Rightarrow> Inl NilDereference
                           | Some ch \<Rightarrow>
                               (let ch1 = (if length items1 > 0
                                           then ch\<lparr>Items := Items ch @ items1\<rparr> else ch)
                                in Inr (ch1\<lparr>Version := ver\<rparr>))))))"

definition Parse :: "Shared \<Rightarrow> xtoken list \<Rightarrow> error + Feed" where
  "Parse C feed =
     (let p = NewXMLPullParser feed in
      case FindRoot p of
        Inl err \<Rightarrow> Inl err
      | Inr (ev, p1) \<Rightarrow> parseRoot C p1)"

section \<open>The universal parser\<close>

datatype FeedType = FeedTypeUnknown | FeedTypeAtom | FeedTypeRSS | FeedTypeSitemap

definition DetectFeedType :: "xtoken list \<Rightarrow> FeedType" where
  "DetectFeedType feed =
     (let p = NewXMLPullParser feed in
      case FindRoot p of
        Inl err \<Rightarrow> FeedTypeUnknown
      | Inr (ev, p1) \<Rightarrow>
          (let name = ToLower (XMLPullParser.Name p1) in
           if name = ''rdf'' then FeedTypeRSS
           else if name = ''rss'' then FeedTypeRSS
           else if name = ''feed'' then FeedTypeAtom
           else if name = ''urlset'' then FeedTypeSitemap
           else FeedTypeUnknown))"

text \<open>
  The input the detector has pulled through the tee reader when it returns: everything up
  to the root's start tag, or up to the place where it gave up.
\<close>

definition detect_read :: "xtoken list \<Rightarrow> nat" where
  "detect_read feed =
     (case FindRoot (NewXMLPullParser feed) of
        Inl err \<Rightarrow> length (takeWhile (\<lambda>t. t \<noteq> Malformed) feed)
      | Inr (ev, p1) \<Rightarrow> length feed - length (decoder p1))"

record Transport =
  TLSHandshakeTimeout :: nat
  ExpectContinueTimeout :: nat
  Proxy :: string

record Client =
  Transport :: "Transport option"
  Timeout :: nat

text \<open>
  Modelled from the spec: the collaborators of the orchestrator that are absent from the
  sources: the capabilities of the shared package, the RSS and Atom extractors, and the
  default translators ("pure mapping from dialect tree to CanonicalModel", each returning a
  canonical feed or an error).
\<close>

record ('a, 'r, 'u) Collaborators =
  shared :: Shared
  atom_Parse :: "xtoken list \<Rightarrow> error + 'a"
  rss_Parse :: "xtoken list \<Rightarrow> error + 'r"
  DefaultAtomTranslator :: "'a \<Rightarrow> error + 'u"
  DefaultRSSTranslator :: "'r \<Rightarrow> error + 'u"
  DefaultSitemapTranslator :: "Feed \<Rightarrow> error + 'u"

record ('a, 'r, 'u) Parser =
  AtomTranslator :: "('a \<Rightarrow> error + 'u) option"
  RSSTranslator :: "('r \<Rightarrow> error + 'u) option"
  SitemapTranslator :: "(Feed \<Rightarrow> error + 'u) option"
  Client :: "Client option"

definition NewParser :: "('a, 'r, 'u) Parser" where
  "NewParser =
     \<lparr>AtomTranslator = None, RSSTranslator = None, SitemapTranslator = None, Client = None\<rparr>"

definition atomTrans ::
  "('a, 'r, 'u) Collaborators \<Rightarrow> ('a, 'r, 'u) Parser \<Rightarrow>
     ('a \<Rightarrow> error + 'u) \<times> ('a, 'r, 'u) Parser" where
  "atomTrans E f =
     (case AtomTranslator f of
        Some t \<Rightarrow> (t, f)
      | None \<Rightarrow>
          (DefaultAtomTranslator E, f\<lparr>AtomTranslator := Some (DefaultAtomTranslator E)\<rparr>))"

definition rssTrans ::
  "('a, 'r, 'u) Collaborators \<Rightarrow> ('a, 'r, 'u) Parser \<Rightarrow>
     ('r \<Rightarrow> error + 'u) \<times> ('a, 'r, 'u) Parser" where
  "rssTrans E f =
     (case RSSTranslator f of
        Some t \<Rightarrow> (t, f)
      | None \<Rightarrow>
          (DefaultRSSTranslator E, f\<lparr>RSSTranslator := Some (DefaultRSSTranslator E)\<rparr>))"

definition sitemapTrans ::
  "('a, 'r, 'u) Collaborators \<Rightarrow> ('a, 'r, 'u) Parser \<Rightarrow>
     (Feed \<Rightarrow> error + 'u) \<times> ('a, 'r, 'u) Parser" where
  "sitemapTrans E f =
     (case SitemapTranslator f of
        Some t \<Rightarrow> (t, f)
      | None \<Rightarrow>
          (DefaultSitemapTranslator E,
           f\<lparr>SitemapTranslator := Some (DefaultSitemapTranslator E)\<rparr>))"

definition parseAtomFeed ::
  "('a, 'r, 'u) Collaborators \<Rightarrow> ('a, 'r, 'u) Parser \<Rightarrow> xtoken list \<Rightarrow>
     (error + 'u) \<times> ('a, 'r, 'u) Parser" where
  "parseAtomFeed E f feed =
     (case atom_Parse E feed of
        Inl err \<Rightarrow> (Inl err, f)
      | Inr af \<Rightarrow> (let (t, f1) = atomTrans E f in (t af, f1)))"

definition parseRSSFeed ::
  "('a, 'r, 'u) Collaborators \<Rightarrow> ('a, 'r, 'u) Parser \<Rightarrow> xtoken list \<Rightarrow>
     (error + 'u) \<times> ('a, 'r, 'u) Parser" where
  "parseRSSFeed E f feed =
     (case rss_Parse E feed of
        Inl err \<Rightarrow> (Inl err, f)
      | Inr rf \<Rightarrow> (let (t, f1) = rssTrans E f in (t rf, f1)))"

definition parseSitemapFeed ::
  "('a, 'r, 'u) Collaborators \<Rightarrow> ('a, 'r, 'u) Parser \<Rightarrow> xtoken list \<Rightarrow>
     (error + 'u) \<times> ('a, 'r, 'u) Parser" where
  "parseSitemapFeed E f feed =
     (case Parse (shared E) feed of
        Inl err \<Rightarrow> (Inl err, f)
      | Inr sf \<Rightarrow> (let (t, f1) = sitemapTrans E f in (t sf, f1)))"

text \<open>
  The orchestrator's own error, \<^verbatim>\<open>errors.New("Failed to detect feed type")\<close>, is a value
  of its own; every other error is handed on as the stage that raised it returned it.
\<close>

datatype parse_error = FailedToDetect | Propagated error

definition propagate ::
  "(error + 'u) \<times> ('a, 'r, 'u) Parser \<Rightarrow> (parse_error + 'u) \<times> ('a, 'r, 'u) Parser" where
  "propagate r = (case r of (Inl err, f) \<Rightarrow> (Inl (Propagated err), f) | (Inr u, f) \<Rightarrow> (Inr u, f))"

text \<open>
  \<^verbatim>\<open>Parser.Parse\<close>. The tee reader copies what the detector reads into \<^verbatim>\<open>buf\<close>; the
  multi-reader puts \<^verbatim>\<open>buf\<close> back in front of what is left of the input.
\<close>

definition Parser_Parse ::
  "('a, 'r, 'u) Collaborators \<Rightarrow> ('a, 'r, 'u) Parser \<Rightarrow> xtoken list \<Rightarrow>
     (parse_error + 'u) \<times> ('a, 'r, 'u) Parser" where
  "Parser_Parse E f feed =
     (let buf = take (detect_read feed) feed;
          rest = drop (detect_read feed) feed;
          feedType = DetectFeedType feed;
          r = buf @ rest
      in case feedType of
           FeedTypeAtom \<Rightarrow> propagate (parseAtomFeed E f r)
         | FeedTypeRSS \<Rightarrow> propagate (parseRSSFeed E f r)
         | FeedTypeSitemap \<Rightarrow> propagate (parseSitemapFeed E f r)
         | FeedTypeUnknown \<Rightarrow> (Inl FailedToDetect, f))"

definition httpClient :: "('a, 'r, 'u) Parser \<Rightarrow> Client \<times> ('a, 'r, 'u) Parser" where
  "httpClient f =
     (case Client f of
        Some c \<Rightarrow> (c, f)
      | None \<Rightarrow>
          (let timeout = 15;
               c = \<lparr>Transport = None, Timeout = timeout\<rparr>
           in (c, f\<lparr>Client := Some c\<rparr>)))"

definition httpClientWithProxy ::
  "('a, 'r, 'u) Parser \<Rightarrow> string \<Rightarrow> Client \<times> ('a, 'r, 'u) Parser" where
  "httpClientWithProxy f uRLProxy =
     (case Client f of
        Some c \<Rightarrow> (c, f)
      | None \<Rightarrow>
          (let timeout = 15;
               c = \<lparr>Transport = Some \<lparr>TLSHandshakeTimeout = 10, ExpectContinueTimeout = 1,
                       Proxy = uRLProxy\<rparr>,
                    Timeout = timeout\<rparr>
           in (c, f\<lparr>Client := Some c\<rparr>)))"

section \<open>Documents\<close>

text \<open>
  A well-formed document is a tree; the decoder hands it to the cursor as the sequence of its
  tokens, every element between its start tag and its end tag.
\<close>

datatype xnode =
    Element string string "Attr list" "xnode list"
  | TextNode string
  | CommentNode
  | ProcInstNode
  | DirectiveNode

fun flat :: "xnode \<Rightarrow> xtoken list" and flats :: "xnode list \<Rightarrow> xtoken list" where
  "flat (Element s n as kids) = StartElement s n as # flats kids @ [EndElement s n]"
| "flat (TextNode t) = [CharData t]"
| "flat CommentNode = [CommentTok]"
| "flat ProcInstNode = [ProcInst]"
| "flat DirectiveNode = [DirectiveTok]"
| "flats [] = []"
| "flats (k # ks) = flat k @ flats ks"

text \<open>The tokens that may stand before the root element: anything but a start tag.\<close>

fun is_start :: "xtoken \<Rightarrow> bool" where
  "is_start (StartElement s n as) = True"
| "is_start t = False"

text \<open>
  An instance of the capabilities for the example documents: one extension namespace is
  recognized, the text of an element is its character data, and one date is understood.
\<close>

fun chardata :: "xtoken list \<Rightarrow> string" where
  "chardata [] = []"
| "chardata (CharData s # ts) = s @ chardata ts"
| "chardata (t # ts) = chardata ts"

definition demo_shared :: Shared where
  "demo_shared =
     \<lparr>recognizes = (\<lambda>space. space = ''http://www.google.com/schemas/sitemap-video/1.1''),
      inner_text = (\<lambda>c. Inr (chardata c)),
      ParseDate = (\<lambda>s. if s = ''2024-01-02T00:00:00Z''
                       then Inr \<lparr>instant = 1704153600, zone = 0\<rparr> else Inl DateError)\<rparr>"

definition leaf :: "string \<Rightarrow> string \<Rightarrow> xnode" where
  "leaf n t = Element [] n [] [TextNode t]"

definition news_doc :: "xnode" where
  "news_doc =
     Element [] ''urlset'' []
       [Element [] ''url'' []
          [Element [] ''news'' []
             [Element [] ''publication'' [] [leaf ''name'' ''N'', leaf ''language'' ''en'']],
           leaf ''loc'' ''http://a/'']]"

definition two_loc_doc :: "xnode" where
  "two_loc_doc =
     Element [] ''urlset'' []
       [Element [] ''url'' [] [leaf ''loc'' ''http://a/'', leaf ''loc'' ''http://b/'']]"

definition bare_urlset :: "xnode" where
  "bare_urlset = Element [] ''urlset'' [] []"

definition demo_collaborators :: "(unit, unit, Feed) Collaborators" where
  "demo_collaborators =
     \<lparr>shared = demo_shared,
      atom_Parse = (\<lambda>feed. Inl SyntaxError),
      rss_Parse = (\<lambda>feed. Inl SyntaxError),
      DefaultAtomTranslator = (\<lambda>af. Inl SyntaxError),
      DefaultRSSTranslator = (\<lambda>rf. Inl SyntaxError),
      DefaultSitemapTranslator = Inr\<rparr>"

section \<open>What a document means\<close>

text \<open>
  What the parsers compute, read off the tree: each parser folds a step over the children of
  its element, and a step without a result (\<open>None\<close>) leaves the whole element without one.
  A url element has no result at a loc child that comes after a non-empty link: there the
  source's \<^verbatim>\<open>continue\<close> leaves the loop inside the loc element.
\<close>

definition after_end :: "string \<Rightarrow> xtoken list \<Rightarrow> XMLPullParser" where
  "after_end n ts = \<lparr>Event = EndTag, Attrs = [], Name = n, Space = [], decoder = ts\<rparr>"

definition text_of :: "Shared \<Rightarrow> xnode list \<Rightarrow> string option" where
  "text_of C kids = (case inner_text C (flats kids) of Inl err \<Rightarrow> None | Inr t \<Rightarrow> Some t)"

fun fold_children :: "('a \<Rightarrow> xnode \<Rightarrow> 'a option) \<Rightarrow> xnode list \<Rightarrow> 'a \<Rightarrow> 'a option" where
  "fold_children f [] a = Some a"
| "fold_children f (k # ks) a =
     (case f a k of None \<Rightarrow> None | Some a' \<Rightarrow> fold_children f ks a')"

fun publication_child :: "Shared \<Rightarrow> News \<Rightarrow> xnode \<Rightarrow> News option" where
  "publication_child C news (Element s n as kids) =
     (if ToLower n = ''name''
      then map_option (\<lambda>t. news\<lparr>News.Name := t\<rparr>) (text_of C kids)
      else if ToLower n = ''language''
      then map_option (\<lambda>t. news\<lparr>News.Language := t\<rparr>) (text_of C kids)
      else Some news)"
| "publication_child C news k = Some news"

definition publication_of :: "Shared \<Rightarrow> xnode list \<Rightarrow> News option" where
  "publication_of C kids = fold_children (publication_child C) kids new_News"

fun image_child :: "Shared \<Rightarrow> Image \<Rightarrow> xnode \<Rightarrow> Image option" where
  "image_child C img (Element s n as kids) =
     (if ToLower n = ''loc''
      then map_option (\<lambda>t. img\<lparr>Image.Link := t\<rparr>) (text_of C kids)
      else Some img)"
| "image_child C img k = Some img"

definition image_of :: "Shared \<Rightarrow> xnode list \<Rightarrow> Image option" where
  "image_of C kids = fold_children (image_child C) kids new_Image"

fun news_child :: "Shared \<Rightarrow> News \<Rightarrow> xnode \<Rightarrow> News option" where
  "news_child C news (Element s n as kids) =
     (if ToLower n = ''publication''
      then map_option
             (\<lambda>r. news\<lparr>News.Name := News.Name r, News.Language := News.Language r\<rparr>)
             (publication_of C kids)
      else if ToLower n = ''publication_date''
      then map_option (\<lambda>t. news\<lparr>PublicationDate := t\<rparr>) (text_of C kids)
      else if ToLower n = ''title''
      then map_option (\<lambda>t. news\<lparr>News.Title := t\<rparr>) (text_of C kids)
      else Some news)"
| "news_child C news k = Some news"

definition news_of :: "Shared \<Rightarrow> xnode list \<Rightarrow> News option" where
  "news_of C kids = fold_children (news_child C) kids new_News"

definition date_of :: "Shared \<Rightarrow> string \<Rightarrow> Time option" where
  "date_of C raw = (case ParseDate C raw of Inl err \<Rightarrow> None | Inr date \<Rightarrow> Some (UTC date))"

definition with_news :: "Shared \<Rightarrow> News \<Rightarrow> Item \<Rightarrow> Item" where
  "with_news C r item =
     (case date_of C (PublicationDate r) of
        None \<Rightarrow> item\<lparr>Item.Title := News.Title r, PubDate := PublicationDate r\<rparr>
      | Some d \<Rightarrow> item\<lparr>Item.Title := News.Title r, PubDate := PublicationDate r,
                   PubDateParsed := Some d\<rparr>)"

fun item_child ::
  "Shared \<Rightarrow> Item \<times> Feed \<times> Extensions \<Rightarrow> xnode \<Rightarrow> (Item \<times> Feed \<times> Extensions) option" where
  "item_child C (item, feed, exts) (Element s n as kids) =
     (if recognizes C s
      then Some (item\<lparr>Extensions := Some (exts @ [(s, n, flats kids)])\<rparr>, feed,
                 exts @ [(s, n, flats kids)])
      else if ToLower n = ''news''
      then map_option
             (\<lambda>r. (with_news C r item,
                    feed\<lparr>Feed.Title := News.Name r, Feed.Language := News.Language r\<rparr>,
                    exts))
             (news_of C kids)
      else if ToLower n = ''loc''
      then (if Item.Link item \<noteq> [] then None
            else map_option (\<lambda>t. (item\<lparr>Item.Link := t\<rparr>, feed, exts)) (text_of C kids))
      else if ToLower n = ''image''
      then map_option (\<lambda>r. (item\<lparr>Image := Some r\<rparr>, feed, exts)) (image_of C kids)
      else Some (item, feed, exts))"
| "item_child C st k = Some st"

definition item_of :: "Shared \<Rightarrow> xnode list \<Rightarrow> (Item \<times> Feed) option" where
  "item_of C kids =
     (case fold_children (item_child C) kids (new_Item, new_Feed, []) of
        None \<Rightarrow> None
      | Some (item, feed, exts) \<Rightarrow>
          Some (if exts \<noteq> [] then item\<lparr>Extensions := Some exts\<rparr> else item, feed))"

fun root_child :: "Shared \<Rightarrow> Item list \<Rightarrow> xnode \<Rightarrow> Item list option" where
  "root_child C items (Element s n as kids) =
     (if recognizes C s then Some items
      else if ToLower n = ''url''
      then map_option (\<lambda>(item, feed). items @ [item]) (item_of C kids)
      else Some items)"
| "root_child C items k = Some items"

definition enter :: "string \<Rightarrow> string \<Rightarrow> Attr list \<Rightarrow> xnode list \<Rightarrow> xtoken list \<Rightarrow> XMLPullParser" where
  "enter s n as kids rest =
     \<lparr>Event = StartTag, Attrs = as, Name = n, Space = s,
      decoder = flats kids @ EndElement s n # rest\<rparr>"

definition is_element :: "xnode \<Rightarrow> bool" where
  "is_element k = (case k of Element s n as kids \<Rightarrow> True | _ \<Rightarrow> False)"



definition is_news :: "Shared \<Rightarrow> xnode \<Rightarrow> bool" where
  "is_news C k =
     (case k of Element s n as kids \<Rightarrow> \<not> recognizes C s \<and> ToLower n = ''news'' | _ \<Rightarrow> False)"

definition is_extension :: "Shared \<Rightarrow> xnode \<Rightarrow> bool" where
  "is_extension C k = (case k of Element s n as kids \<Rightarrow> recognizes C s | _ \<Rightarrow> False)"

definition is_publication_date :: "xnode \<Rightarrow> bool" where
  "is_publication_date k =
     (case k of Element s n as kids \<Rightarrow> ToLower n = ''publication_date'' | _ \<Rightarrow> False)"

definition same_but_date :: "Item \<Rightarrow> Item \<Rightarrow> bool" where
  "same_but_date a b \<longleftrightarrow>
     Item.Title a = Item.Title b \<and> Item.Link a = Item.Link b \<and> Image a = Image b \<and>
     PubDate a = PubDate b \<and> Extensions a = Extensions b"

definition ext_node :: xnode where
  "ext_node = Element ''http://www.google.com/schemas/sitemap-video/1.1'' ''video'' []
                [leaf ''title'' ''V'']"


definition item_a :: Item where
  "item_a = \<lparr>Item.Title = [], Link = ''http://a/'', Image = None, PubDate = [],
     PubDateParsed = None, Extensions = None\<rparr>"

definition item_b :: Item where
  "item_b = \<lparr>Item.Title = [], Link = ''http://b/'', Image = None, PubDate = [],
     PubDateParsed = None,
     Extensions = Some [(''http://www.google.com/schemas/sitemap-video/1.1'', ''video'',
        flat (leaf ''title'' ''V''))]\<rparr>"

definition item_dated :: Item where
  "item_dated = \<lparr>Item.Title = ''T'', Link = ''http://a/'', Image = None,
     PubDate = ''2024-01-02T00:00:00Z'',
     PubDateParsed = Some \<lparr>instant = 1704153600, zone = 0\<rparr>, Extensions = None\<rparr>"




definition stale_kids :: "xnode list" where
  "stale_kids =
     [Element [] ''news'' [] [leaf ''publication_date'' ''2024-01-02T00:00:00Z''],
      Element [] ''news'' [] [leaf ''publication_date'' ''bad'']]"

definition item_stale :: Item where
  "item_stale = \<lparr>Item.Title = [], Link = [], Image = None, PubDate = ''bad'',
     PubDateParsed = Some \<lparr>instant = 1704153600, zone = 0\<rparr>, Extensions = None\<rparr>"

definition item_undated :: Item where
  "item_undated = \<lparr>Item.Title = [], Link = [], Image = None, PubDate = ''bad'',
     PubDateParsed = None, Extensions = None\<rparr>"


definition sitemap_ns :: "Attr list" where
  "sitemap_ns = [Attr [] ''xmlns'' ''http://www.sitemaps.org/schemas/sitemap/0.9'']"

definition capital_ns :: "Attr list" where
  "capital_ns = [Attr [] ''XMLNS'' ''http://www.sitemaps.org/schemas/sitemap/0.9'']"

section \<open>Letter case beyond ASCII\<close>

lemma ToLower_beyond_ASCII:
  "ToLower (''PUBL'' @ [CHR 0xC4, CHR 0xB0] @ ''CATION_DATE'') = ''publication_date''"
  "ToLower ([CHR 0xE2, CHR 0x84, CHR 0xAA] @ ''ey'') = ''key''"
  "ToLower ''Title'' = ''title''"
  by code_simp+

section \<open>Feed type detection and the orchestrator\<close>

lemma find_root_prolog:
  "\<forall>t\<in>set pre. \<not> is_start t \<and> t \<noteq> Malformed \<Longrightarrow>
     find_root (pre @ ts) = (if ts = [] then Inl RootNotFound else find_root ts)"
  apply (induction pre)
  apply (auto split: if_splits)
  subgoal for a pre by (cases a) auto
  subgoal for a pre by (cases a) auto
  done

text \<open>
  C5: the detector maps a root element named, in any letter case, "rdf" or "rss" to RSS,
  "feed" to Atom and "urlset" to Sitemap, and yields Unknown for any other root, for an
  input without a root element (the empty one included) and for an input that is malformed
  before its root; it has no error result. The orchestrator's parse fails with its
  detection error exactly when the detector yields Unknown.
\<close>

theorem DetectFeedType_classifies:
  assumes "\<forall>t\<in>set pre. \<not> is_start t \<and> t \<noteq> Malformed"
  shows "DetectFeedType (pre @ StartElement s n as # rest) =
           (if ToLower n = ''rdf'' \<or> ToLower n = ''rss'' then FeedTypeRSS
            else if ToLower n = ''feed'' then FeedTypeAtom
            else if ToLower n = ''urlset'' then FeedTypeSitemap
            else FeedTypeUnknown)
         \<and> DetectFeedType pre = FeedTypeUnknown
         \<and> DetectFeedType (pre @ Malformed # rest) = FeedTypeUnknown
         \<and> (fst (Parser_Parse E f feed) = Inl FailedToDetect
              \<longleftrightarrow> DetectFeedType feed = FeedTypeUnknown)"
proof -
  have a: "find_root (pre @ StartElement s n as # rest) = find_root (StartElement s n as # rest)"
    using find_root_prolog [OF assms, of "StartElement s n as # rest"] by simp
  have b: "find_root pre = Inl RootNotFound"
    using find_root_prolog [OF assms, of "[]"] by simp
  have c: "find_root (pre @ Malformed # rest) = Inl SyntaxError"
    using find_root_prolog [OF assms, of "Malformed # rest"] by simp
  have d: "fst (Parser_Parse E f feed) = Inl FailedToDetect
              \<longleftrightarrow> DetectFeedType feed = FeedTypeUnknown"
    by (cases "DetectFeedType feed")
       (auto simp: Parser_Parse_def propagate_def parseAtomFeed_def parseRSSFeed_def
          parseSitemapFeed_def Let_def split: sum.splits prod.splits)
  show ?thesis
    using a b c d by (simp add: DetectFeedType_def FindRoot_def NewXMLPullParser_def Let_def)
qed

theorem DetectFeedType_classifies_witness:
  "DetectFeedType ([ProcInst, CommentTok] @ StartElement [] ''URLSet'' [] # [EndElement [] ''URLSet''])
       = FeedTypeSitemap
   \<and> DetectFeedType [ProcInst, CommentTok] = FeedTypeUnknown
   \<and> DetectFeedType ([ProcInst, CommentTok] @ Malformed # [EndElement [] ''URLSet''])
       = FeedTypeUnknown
   \<and> fst (Parser_Parse demo_collaborators NewParser [ProcInst, CommentTok]) = Inl FailedToDetect"
proof -
  have h: "\<forall>t\<in>set [ProcInst, CommentTok]. \<not> is_start t \<and> t \<noteq> Malformed" by simp
  have l: "ToLower ''URLSet'' = ''urlset''" by code_simp
  show ?thesis
    using h DetectFeedType_classifies [OF h, of "[]" "''URLSet''" "[]" "[EndElement [] ''URLSet'']"
        demo_collaborators NewParser "[ProcInst, CommentTok]"]
    by (simp add: l)
qed

text \<open>
  C9: parsing the same input a second time, with the parser as the first parse left it
  (its default translators installed), returns the same feed or the same error.
\<close>

theorem Parser_Parse_repeatable: "fst (Parser_Parse E (snd (Parser_Parse E f feed)) feed) = fst (Parser_Parse E f feed)"
  by (cases "DetectFeedType feed")
     (auto simp: Parser_Parse_def propagate_def parseAtomFeed_def parseRSSFeed_def
          parseSitemapFeed_def atomTrans_def rssTrans_def sitemapTrans_def Let_def
        split: sum.splits prod.splits option.splits)

section \<open>The version of a Sitemap feed\<close>

lemma parseRoot_Version:
  "parseRoot C p = Inr feed \<Longrightarrow> Version feed = parseVersion p"
  by (auto simp: parseRoot_def Let_def split: option.splits sum.splits prod.splits if_splits)

lemma parseRoot_urlset:
  "parseRoot C p = Inr feed \<Longrightarrow> ToLower (XMLPullParser.Name p) = ''urlset''"
proof -
  have l: "ToLower ''urlset'' = ''urlset''" by code_simp
  show "parseRoot C p = Inr feed \<Longrightarrow> ToLower (XMLPullParser.Name p) = ''urlset''"
    by (auto simp: parseRoot_def Expect_def l split: option.splits if_splits)
qed

text \<open>
  C2 (amended): for every document the Sitemap parser accepts, the feed's Version is "0.9"
  when the root's xmlns attribute is "http://www.sitemaps.org/schemas/sitemap/0.9" and the
  sentinel "unknow" for any other or missing value; it is never empty.
\<close>

theorem Parse_Version:
  assumes "\<forall>t\<in>set pre. \<not> is_start t \<and> t \<noteq> Malformed"
    and "Parse C (pre @ StartElement s n as # rest) = Inr feed"
  shows "Version feed =
           (if attribute_of as ''xmlns'' = ''http://www.sitemaps.org/schemas/sitemap/0.9''
            then ''0.9'' else ''unknow'')
         \<and> Version feed \<noteq> []"
proof -
  let ?p = "\<lparr>Event = StartTag, Attrs = as, Name = n, Space = s, decoder = rest\<rparr>"
  have "find_root (pre @ StartElement s n as # rest) = Inr (StartTag, ?p)"
    using find_root_prolog [OF assms(1), of "StartElement s n as # rest"] by simp
  with assms(2) have r: "parseRoot C ?p = Inr feed"
    by (simp add: Parse_def FindRoot_def NewXMLPullParser_def)
  from parseRoot_Version [OF r] parseRoot_urlset [OF r] show ?thesis
    by (simp add: parseVersion_def Attribute_def Let_def)
qed

text \<open>
  C2 as stated fails: for a urlset root without an xmlns attribute the Version is "unknow",
  not "unknown".
\<close>

theorem Parse_Version_not_unknown:
  "Parse demo_shared (flat bare_urlset) =
     Inr \<lparr>Feed.Title = [], Items = [], Language = [], Version = ''unknow''\<rparr>
   \<and> Version \<lparr>Feed.Title = [], Items = [], Language = [], Version = ''unknow''\<rparr> \<noteq> ''unknown''"
  by code_simp

theorem Parse_Version_witness:
  "Parse demo_shared ([] @ StartElement [] ''urlset'' [] # [EndElement [] ''urlset'']) =
       Inr \<lparr>Feed.Title = [], Items = [], Language = [], Version = ''unknow''\<rparr>
   \<and> Parse demo_shared ([] @ StartElement [] ''urlset'' sitemap_ns # [EndElement [] ''urlset'']) =
       Inr \<lparr>Feed.Title = [], Items = [], Language = [], Version = ''0.9''\<rparr>
   \<and> attribute_of sitemap_ns ''xmlns'' = ''http://www.sitemaps.org/schemas/sitemap/0.9''
   \<and> Parse demo_shared ([] @ StartElement [] ''urlset'' capital_ns # [EndElement [] ''urlset'']) =
       Inr \<lparr>Feed.Title = [], Items = [], Language = [], Version = ''unknow''\<rparr>
   \<and> attribute_of capital_ns ''xmlns'' \<noteq> ''http://www.sitemaps.org/schemas/sitemap/0.9''"
proof -
  have h1: "\<forall>t\<in>set []. \<not> is_start t \<and> t \<noteq> Malformed" by simp
  have a: "Parse demo_shared ([] @ StartElement [] ''urlset'' [] # [EndElement [] ''urlset'']) =
       Inr \<lparr>Feed.Title = [], Items = [], Language = [], Version = ''unknow''\<rparr>"
    by code_simp
  have b: "Parse demo_shared ([] @ StartElement [] ''urlset'' sitemap_ns # [EndElement [] ''urlset'']) =
       Inr \<lparr>Feed.Title = [], Items = [], Language = [], Version = ''0.9''\<rparr>"
    by code_simp
  have c: "Parse demo_shared ([] @ StartElement [] ''urlset'' capital_ns # [EndElement [] ''urlset'']) =
       Inr \<lparr>Feed.Title = [], Items = [], Language = [], Version = ''unknow''\<rparr>"
    by code_simp
  from a b c Parse_Version [OF h1 a] Parse_Version [OF h1 b] Parse_Version [OF h1 c]
  show ?thesis by (simp split: if_splits)
qed

section \<open>The HTTP client\<close>

text \<open>
  C10: when the parser's client is already set, the proxy variant returns that client and
  leaves the parser as it is, whatever proxy address it is given; so after the plain
  variant has installed the default client, the proxy variant hands out that client, which
  has no proxy transport.
\<close>

theorem httpClientWithProxy_existing:
  assumes "Client f = Some c"
  shows "httpClientWithProxy f proxyURL = (c, f)"
  using assms by (simp add: httpClientWithProxy_def)

theorem httpClientWithProxy_existing_witness:
  "Client (snd (httpClient (NewParser :: (unit, unit, unit) Parser)))
     = Some \<lparr>Transport = None, Timeout = 15\<rparr>
   \<and> httpClientWithProxy (snd (httpClient (NewParser :: (unit, unit, unit) Parser))) ''10.0.0.1:8080''
     = (\<lparr>Transport = None, Timeout = 15\<rparr>, snd (httpClient NewParser))"
proof -
  have h: "Client (snd (httpClient (NewParser :: (unit, unit, unit) Parser)))
     = Some \<lparr>Transport = None, Timeout = 15\<rparr>"
    by (simp add: httpClient_def NewParser_def Let_def)
  show ?thesis using h httpClientWithProxy_existing [OF h, of "''10.0.0.1:8080''"] by simp
qed

section \<open>The Sitemap parser on example documents\<close>

text \<open>
  C1: on a document whose only url element has a news element naming the publication "N" in
  language "en", the parser returns a feed whose Title and Language are both empty: the
  adoption of the item's values is guarded by a test that never holds.
\<close>

theorem Parse_news_doc:
  "Parse demo_shared (flat news_doc) =
     Inr \<lparr>Feed.Title = [],
          Items = [\<lparr>Item.Title = [], Link = ''http://a/'', Image = None, PubDate = [],
                    PubDateParsed = None, Extensions = None\<rparr>],
          Language = [], Version = ''unknow''\<rparr>"
  by code_simp

text \<open>
  The same holds on every input: the channel the root loop returns is the one it was
  started with, so a feed the parser returns has neither a Title nor a Language.
\<close>

lemma parseRoot_loop_channel:
  "parseRoot_loop C (Some ch) items p = Inr (channel', items', p') \<Longrightarrow> channel' = Some ch"
proof (induction "length (decoder p)" arbitrary: items p rule: less_induct)
  case less
  note IH = less.hyps
  from less.prems show ?case
    apply (subst (asm) parseRoot_loop.simps)
    apply (clarsimp split: sum.splits prod.splits if_splits simp: Let_def)
    apply (metis IH NextTag_shorter parseItem_shorter Skip_shorter le_less_trans less_trans)+
    done
qed

lemma Parse_Title_Language:
  assumes "Parse C feed = Inr channel"
  shows "Feed.Title channel = [] \<and> Feed.Language channel = []"
proof -
  from assms obtain p where r: "parseRoot C p = Inr channel"
    by (auto simp: Parse_def Let_def split: sum.splits)
  then obtain channel1 items1 p1 where
    loop: "parseRoot_loop C (Some new_Feed) [] p = Inr (channel1, items1, p1)"
    by (auto simp: parseRoot_def Let_def split: option.splits sum.splits)
  from parseRoot_loop_channel [OF loop] r loop show ?thesis
    by (auto simp: parseRoot_def Let_def new_Feed_def split: option.splits if_splits)
qed

text \<open>
  C3: on a url element with two loc children, the first of them non-empty, the parser
  returns an error instead of an item.
\<close>

theorem Parse_two_loc_doc:
  "Parse demo_shared (flat two_loc_doc) = Inl (ExpectError EndTag ''url'')"
  by code_simp

section \<open>The parsers on well-formed documents\<close>

text \<open>
  On the tokens of a tree every parser that returns a result has read exactly its element
  and returns what the fold over the children gives.
\<close>

lemma flats_append [simp]: "flats (xs @ ys) = flats xs @ flats ys"
  by (induction xs) simp_all

lemma subtree_flat_flats:
  "subtree d (flat k @ ts) = map_option (\<lambda>(c, r). (flat k @ c, r)) (subtree d ts)"
  "subtree d (flats ks @ ts) = map_option (\<lambda>(c, r). (flats ks @ c, r)) (subtree d ts)"
  by (induction k and ks arbitrary: d ts and d ts rule: flat_flats.induct)
     (simp_all add: option.map_comp comp_def case_prod_unfold option.map_ident)

lemma subtree_content [simp]:
  "subtree 0 (flats kids @ EndElement s n # ts) = Some (flats kids, n, ts)"
  by (simp add: subtree_flat_flats)

lemma next_tag_flat_Element [simp]:
  "next_tag (flat (Element s n as kids) @ ts) =
     Inr (StartTag, \<lparr>Event = StartTag, Attrs = as, Name = n, Space = s,
        decoder = flats kids @ EndElement s n # ts\<rparr>)"
  by simp

lemma next_tag_flat_other [simp]:
  "\<not> is_element k \<Longrightarrow> next_tag (flat k @ ts) = next_tag ts"
  by (cases k) (simp_all add: is_element_def)

lemma fold_children_other:
  "\<not> is_element k \<Longrightarrow> f a k = Some a \<Longrightarrow> fold_children f (k # ks) a = fold_children f ks a"
  by simp

lemma child_other [simp]:
  "\<not> is_element k \<Longrightarrow> publication_child C news k = Some news"
  "\<not> is_element k \<Longrightarrow> image_child C img k = Some img"
  "\<not> is_element k \<Longrightarrow> news_child C news k = Some news"
  "\<not> is_element k \<Longrightarrow> item_child C st k = Some st"
  "\<not> is_element k \<Longrightarrow> root_child C items k = Some items"
  by (cases k; simp add: is_element_def)+

lemma is_elementE:
  assumes "is_element k"
  obtains s n as c where "k = Element s n as c"
  using assms by (cases k) (simp_all add: is_element_def)

lemma parsePublication_loop_other:
  "\<not> is_element k \<Longrightarrow> decoder p = flat k @ ts \<Longrightarrow>
     parsePublication_loop C news p = parsePublication_loop C news (p\<lparr>decoder := ts\<rparr>)"
  by (subst parsePublication_loop.simps, subst (2) parsePublication_loop.simps)
     (simp add: NextTag_def)

lemma parsePublication_loop_tree:
  "decoder p = flats kids @ EndElement s n # rest \<Longrightarrow>
   parsePublication_loop C news p = Inr (news', p') \<Longrightarrow>
   fold_children (publication_child C) kids news = Some news' \<and> p' = after_end n rest"
proof (induction kids arbitrary: news p)
  case Nil
  then show ?case
    by (subst (asm) parsePublication_loop.simps) (simp add: NextTag_def after_end_def)
next
  case (Cons k ks)
  show ?case
  proof (cases "is_element k")
    case True
    then obtain s' n' as' c where k: "k = Element s' n' as' c" by (rule is_elementE)
    from Cons.prems show ?thesis
      apply (subst (asm) parsePublication_loop.simps)
      apply (simp add: NextTag_def k Let_def ParseText_def Skip_def text_of_def
          split: if_splits sum.splits)
      apply (auto dest!: Cons.IH [rotated])
      done
  next
    case False
    with Cons.prems have "parsePublication_loop C news
        (p\<lparr>decoder := flats ks @ EndElement s n # rest\<rparr>) = Inr (news', p')"
      by (simp add: parsePublication_loop_other)
    from Cons.IH [OF _ this] False show ?thesis by simp
  qed
qed

lemma parsePublication_tree:
  "decoder p = flats kids @ EndElement s n # rest \<Longrightarrow>
   parsePublication C p = Inr (r, p') \<Longrightarrow>
   publication_of C kids = Some r \<and> p' = after_end n rest"
  by (auto simp: parsePublication_def publication_of_def
      split: option.splits sum.splits dest: parsePublication_loop_tree)

lemma parseImage_loop_other:
  "\<not> is_element k \<Longrightarrow> decoder p = flat k @ ts \<Longrightarrow>
     parseImage_loop C img p = parseImage_loop C img (p\<lparr>decoder := ts\<rparr>)"
  by (subst parseImage_loop.simps, subst (2) parseImage_loop.simps)
     (simp add: NextTag_def)

lemma parseImage_loop_tree:
  "decoder p = flats kids @ EndElement s n # rest \<Longrightarrow>
   parseImage_loop C img p = Inr (img', p') \<Longrightarrow>
   fold_children (image_child C) kids img = Some img' \<and> p' = after_end n rest"
proof (induction kids arbitrary: img p)
  case Nil
  then show ?case
    by (subst (asm) parseImage_loop.simps) (simp add: NextTag_def after_end_def)
next
  case (Cons k ks)
  show ?case
  proof (cases "is_element k")
    case True
    then obtain s' n' as' c where k: "k = Element s' n' as' c" by (rule is_elementE)
    from Cons.prems show ?thesis
      apply (subst (asm) parseImage_loop.simps)
      apply (simp add: NextTag_def k Let_def ParseText_def Skip_def text_of_def
          split: if_splits sum.splits)
      apply (auto dest!: Cons.IH [rotated])
      done
  next
    case False
    with Cons.prems have "parseImage_loop C img
        (p\<lparr>decoder := flats ks @ EndElement s n # rest\<rparr>) = Inr (img', p')"
      by (simp add: parseImage_loop_other)
    from Cons.IH [OF _ this] False show ?thesis by simp
  qed
qed

lemma parseImage_tree:
  "decoder p = flats kids @ EndElement s n # rest \<Longrightarrow>
   parseImage C p = Inr (r, p') \<Longrightarrow>
   image_of C kids = Some r \<and> p' = after_end n rest"
  by (auto simp: parseImage_def image_of_def
      split: option.splits sum.splits dest: parseImage_loop_tree)

lemma parseNews_loop_other:
  "\<not> is_element k \<Longrightarrow> decoder p = flat k @ ts \<Longrightarrow>
     parseNews_loop C news p = parseNews_loop C news (p\<lparr>decoder := ts\<rparr>)"
  by (subst parseNews_loop.simps, subst (2) parseNews_loop.simps)
     (simp add: NextTag_def)

lemma parseNews_loop_tree:
  "decoder p = flats kids @ EndElement s n # rest \<Longrightarrow>
   parseNews_loop C news p = Inr (news', p') \<Longrightarrow>
   fold_children (news_child C) kids news = Some news' \<and> p' = after_end n rest"
proof (induction kids arbitrary: news p)
  case Nil
  then show ?case
    by (subst (asm) parseNews_loop.simps) (simp add: NextTag_def after_end_def)
next
  case (Cons k ks)
  show ?case
  proof (cases "is_element k")
    case True
    then obtain s' n' as' c where k: "k = Element s' n' as' c" by (rule is_elementE)
    from Cons.prems show ?thesis
      apply (subst (asm) parseNews_loop.simps)
      apply (simp add: NextTag_def k Let_def ParseText_def Skip_def text_of_def
          split: if_splits sum.splits)
      apply (auto dest!: Cons.IH [rotated] parsePublication_tree [rotated] simp: after_end_def)
      done
  next
    case False
    with Cons.prems have "parseNews_loop C news
        (p\<lparr>decoder := flats ks @ EndElement s n # rest\<rparr>) = Inr (news', p')"
      by (simp add: parseNews_loop_other)
    from Cons.IH [OF _ this] False show ?thesis by simp
  qed
qed

lemma parseNews_tree:
  "decoder p = flats kids @ EndElement s n # rest \<Longrightarrow>
   parseNews C p = Inr (r, p') \<Longrightarrow>
   news_of C kids = Some r \<and> p' = after_end n rest"
  by (auto simp: parseNews_def news_of_def
      split: option.splits sum.splits dest: parseNews_loop_tree)

lemma parseItem_loop_other:
  "\<not> is_element k \<Longrightarrow> decoder p = flat k @ ts \<Longrightarrow>
     parseItem_loop C item feed exts p = parseItem_loop C item feed exts (p\<lparr>decoder := ts\<rparr>)"
  by (subst parseItem_loop.simps, subst (2) parseItem_loop.simps)
     (simp add: NextTag_def)

lemma flat_nonempty: "0 < length (flat k)"
  by (cases k) simp_all

lemma parseItem_loop_tree:
  "decoder p = flats kids @ EndElement s n # rest \<Longrightarrow>
   parseItem_loop C item feed exts p = Inr (item', feed', exts', p') \<Longrightarrow>
   (fold_children (item_child C) kids (item, feed, exts) = Some (item', feed', exts')
      \<and> p' = after_end n rest)
   \<or> (Event p' = EndTag \<and> ToLower (XMLPullParser.Name p') = ''loc'')"
proof (induction "length (flats kids)" arbitrary: kids p s n rest item feed exts rule: less_induct)
  case less
  note IH = less.hyps
  show ?case
  proof (cases kids)
    case Nil
    with less.prems show ?thesis
      by (subst (asm) parseItem_loop.simps) (simp add: NextTag_def after_end_def)
  next
    case (Cons k ks)
    have ks: "length (flats ks) < length (flats kids)"
      using flat_nonempty [of k] by (simp add: Cons)
    show ?thesis
    proof (cases "is_element k")
      case False
      with less.prems Cons have "parseItem_loop C item feed exts
          (p\<lparr>decoder := flats ks @ EndElement s n # rest\<rparr>) = Inr (item', feed', exts', p')"
        by (simp add: parseItem_loop_other)
      from IH [OF ks _ this] False show ?thesis by (simp add: Cons)
    next
      case True
      then obtain s' n' as' c where k: "k = Element s' n' as' c" by (rule is_elementE)
      have c: "length (flats c) < length (flats kids)"
        by (simp add: Cons k)
      let ?tail = "flats ks @ EndElement s n # rest"
      let ?p1 = "\<lparr>Event = StartTag, Attrs = as', Name = n', Space = s',
                  decoder = flats c @ EndElement s' n' # ?tail\<rparr>"
      have step: "NextTag p = Inr (StartTag, ?p1)"
        using less.prems(1) by (simp add: NextTag_def Cons k)
      show ?thesis
      proof (cases "\<not> recognizes C s' \<and> ToLower n' = ''loc'' \<and> ToLower n' \<noteq> ''news''
                    \<and> Item.Link item \<noteq> []")
        case True
        with less.prems(2) step
        have "parseItem_loop C item feed exts ?p1 = Inr (item', feed', exts', p')"
          by (subst (asm) parseItem_loop.simps) (simp add: IsExtension_def Let_def)
        from IH [OF c _ this] True show ?thesis
          by (auto simp: after_end_def)
      next
        case False
        with less.prems(2) step show ?thesis
          apply (subst (asm) parseItem_loop.simps)
          apply (simp add: Cons k Let_def ParseText_def Skip_def text_of_def IsExtension_def
              ParseExtension_def split: if_splits sum.splits)
               apply (auto dest!: IH [OF ks, rotated] parseNews_tree [rotated]
              parseImage_tree [rotated]
              simp: after_end_def with_news_def date_of_def split: sum.splits)
          done
      qed
    qed
  qed
qed

lemma lower_literals:
  "ToLower ''url'' = ''url''" "ToLower ''urlset'' = ''urlset''"
  by code_simp+

lemma parseItem_tree:
  assumes "decoder p = flats kids @ EndElement s n # rest"
    and "parseItem C p = Inr (item, feed, p')"
  shows "item_of C kids = Some (item, feed) \<and> p' = after_end n rest"
proof -
  from assms(2) obtain item0 exts where
    loop: "parseItem_loop C new_Item new_Feed [] p = Inr (item0, feed, exts, p')"
    and item: "item = (if length exts > 0 then item0\<lparr>Extensions := Some exts\<rparr> else item0)"
    and e: "Expect EndTag ''url'' p' = None"
    by (auto simp: parseItem_def Let_def split: option.splits sum.splits)
  from e have "ToLower (XMLPullParser.Name p') \<noteq> ''loc''"
    by (auto simp: Expect_def lower_literals split: if_splits)
  with parseItem_loop_tree [OF assms(1) loop]
  have "fold_children (item_child C) kids (new_Item, new_Feed, []) = Some (item0, feed, exts)"
    and "p' = after_end n rest"
    by auto
  with item show ?thesis by (simp add: item_of_def)
qed





section \<open>Every document that can be read is parsed\<close>

text \<open>
  The other direction: where the fold over the children has a result, the parser returns
  it; and the fold has one when every text can be read and no url element has a second loc.
\<close>

lemma lower_tags:
  "ToLower ''publication'' = ''publication''" "ToLower ''image'' = ''image''"
  "ToLower ''news'' = ''news''"
  by code_simp+

lemma after_end_simps [simp]:
  "decoder (after_end n ts) = ts" "Event (after_end n ts) = EndTag"
  "XMLPullParser.Name (after_end n ts) = n"
  by (simp_all add: after_end_def)

lemma parsePublication_loop_complete:
  "decoder p = flats kids @ EndElement s n # rest \<Longrightarrow>
   fold_children (publication_child C) kids news = Some news' \<Longrightarrow>
   parsePublication_loop C news p = Inr (news', after_end n rest)"
proof (induction kids arbitrary: news p)
  case Nil
  then show ?case
    by (subst parsePublication_loop.simps) (simp add: NextTag_def after_end_def)
next
  case (Cons k ks)
  show ?case
  proof (cases "is_element k")
    case True
    then obtain s' n' as' c where k: "k = Element s' n' as' c" by (rule is_elementE)
    from Cons.prems show ?thesis
      apply (subst parsePublication_loop.simps)
      apply (auto simp: NextTag_def k Let_def ParseText_def Skip_def text_of_def
          split: if_splits sum.splits intro!: Cons.IH)
      done
  next
    case False
    with Cons.prems Cons.IH [of "p\<lparr>decoder := flats ks @ EndElement s n # rest\<rparr>" news]
    show ?thesis
      by (simp add: parsePublication_loop_other)
  qed
qed

lemma parsePublication_complete:
  "decoder p = flats kids @ EndElement s n # rest \<Longrightarrow> Event p = StartTag \<Longrightarrow>
   ToLower (XMLPullParser.Name p) = ''publication'' \<Longrightarrow> ToLower n = ''publication'' \<Longrightarrow>
   publication_of C kids = Some r \<Longrightarrow>
   parsePublication C p = Inr (r, after_end n rest)"
  by (simp add: parsePublication_def publication_of_def parsePublication_loop_complete
      Expect_def lower_tags)

lemma parseImage_loop_complete:
  "decoder p = flats kids @ EndElement s n # rest \<Longrightarrow>
   fold_children (image_child C) kids img = Some img' \<Longrightarrow>
   parseImage_loop C img p = Inr (img', after_end n rest)"
proof (induction kids arbitrary: img p)
  case Nil
  then show ?case
    by (subst parseImage_loop.simps) (simp add: NextTag_def after_end_def)
next
  case (Cons k ks)
  show ?case
  proof (cases "is_element k")
    case True
    then obtain s' n' as' c where k: "k = Element s' n' as' c" by (rule is_elementE)
    from Cons.prems show ?thesis
      apply (subst parseImage_loop.simps)
      apply (auto simp: NextTag_def k Let_def ParseText_def Skip_def text_of_def
          split: if_splits sum.splits intro!: Cons.IH)
      done
  next
    case False
    with Cons.prems Cons.IH [of "p\<lparr>decoder := flats ks @ EndElement s n # rest\<rparr>" img]
    show ?thesis
      by (simp add: parseImage_loop_other)
  qed
qed

lemma parseImage_complete:
  "decoder p = flats kids @ EndElement s n # rest \<Longrightarrow> Event p = StartTag \<Longrightarrow>
   ToLower (XMLPullParser.Name p) = ''image'' \<Longrightarrow> ToLower n = ''image'' \<Longrightarrow>
   image_of C kids = Some r \<Longrightarrow>
   parseImage C p = Inr (r, after_end n rest)"
  by (simp add: parseImage_def image_of_def parseImage_loop_complete
      Expect_def lower_tags)

lemma parseNews_loop_complete:
  "decoder p = flats kids @ EndElement s n # rest \<Longrightarrow>
   fold_children (news_child C) kids news = Some news' \<Longrightarrow>
   parseNews_loop C news p = Inr (news', after_end n rest)"
proof (induction kids arbitrary: news p)
  case Nil
  then show ?case
    by (subst parseNews_loop.simps) (simp add: NextTag_def after_end_def)
next
  case (Cons k ks)
  show ?case
  proof (cases "is_element k")
    case True
    then obtain s' n' as' c where k: "k = Element s' n' as' c" by (rule is_elementE)
    from Cons.prems show ?thesis
      apply (subst parseNews_loop.simps)
      apply (auto simp: NextTag_def k Let_def ParseText_def Skip_def text_of_def
          parsePublication_complete
          split: if_splits sum.splits option.splits intro!: Cons.IH)
      done
  next
    case False
    with Cons.prems Cons.IH [of "p\<lparr>decoder := flats ks @ EndElement s n # rest\<rparr>" news]
    show ?thesis
      by (simp add: parseNews_loop_other)
  qed
qed

lemma parseNews_complete:
  "decoder p = flats kids @ EndElement s n # rest \<Longrightarrow> Event p = StartTag \<Longrightarrow>
   ToLower (XMLPullParser.Name p) = ''news'' \<Longrightarrow> ToLower n = ''news'' \<Longrightarrow>
   news_of C kids = Some r \<Longrightarrow>
   parseNews C p = Inr (r, after_end n rest)"
  by (simp add: parseNews_def news_of_def parseNews_loop_complete
      Expect_def lower_tags)

lemma parseItem_loop_complete:
  "decoder p = flats kids @ EndElement s n # rest \<Longrightarrow>
   fold_children (item_child C) kids (item, feed, exts) = Some (item', feed', exts') \<Longrightarrow>
   parseItem_loop C item feed exts p = Inr (item', feed', exts', after_end n rest)"
proof (induction kids arbitrary: item feed exts p)
  case Nil
  then show ?case
    by (subst parseItem_loop.simps) (simp add: NextTag_def after_end_def)
next
  case (Cons k ks)
  show ?case
  proof (cases "is_element k")
    case True
    then obtain s' n' as' c where k: "k = Element s' n' as' c" by (rule is_elementE)
    from Cons.prems show ?thesis
      apply (subst parseItem_loop.simps)
      apply (auto simp: NextTag_def k Let_def ParseText_def Skip_def text_of_def
          IsExtension_def ParseExtension_def parseNews_complete parseImage_complete
          with_news_def date_of_def
          split: if_splits sum.splits option.splits intro!: Cons.IH)
      done
  next
    case False
    with Cons.prems
      Cons.IH [of "p\<lparr>decoder := flats ks @ EndElement s n # rest\<rparr>" item feed exts]
    show ?thesis
      by (simp add: parseItem_loop_other)
  qed
qed

lemma parseItem_complete:
  assumes "ToLower n = ''url''" and "item_of C kids = Some (item, feed)"
  shows "parseItem C (enter s n as kids rest) = Inr (item, feed, after_end n rest)"
proof -
  from assms(2) obtain item0 exts where
    f: "fold_children (item_child C) kids (new_Item, new_Feed, []) = Some (item0, feed, exts)"
    and i: "item = (if exts \<noteq> [] then item0\<lparr>Extensions := Some exts\<rparr> else item0)"
    by (auto simp: item_of_def split: option.splits)
  have d: "decoder (enter s n as kids rest) = flats kids @ EndElement s n # rest"
    by (simp add: enter_def)
  from parseItem_loop_complete [OF d f] assms(1) i show ?thesis
    by (simp add: parseItem_def Expect_def lower_literals enter_def)
qed











lemma with_news_Link [simp]: "Item.Link (with_news C r item) = Item.Link item"
  by (simp add: with_news_def split: option.splits)









lemma fold_children_append:
  "fold_children f (xs @ ys) a =
     (case fold_children f xs a of None \<Rightarrow> None | Some b \<Rightarrow> fold_children f ys b)"
  by (induction xs arbitrary: a) (auto split: option.splits)

lemma item_child_keeps_news:
  "\<not> is_news C k \<Longrightarrow> item_child C (item, feed, exts) k = Some (item', feed', exts') \<Longrightarrow>
     Item.Title item' = Item.Title item \<and> PubDate item' = PubDate item
       \<and> PubDateParsed item' = PubDateParsed item"
  by (cases k) (auto simp: is_news_def split: if_splits)

lemma item_children_keep_news:
  "\<forall>k\<in>set kids. \<not> is_news C k \<Longrightarrow>
   fold_children (item_child C) kids (item, feed, exts) = Some (item', feed', exts') \<Longrightarrow>
     Item.Title item' = Item.Title item \<and> PubDate item' = PubDate item
       \<and> PubDateParsed item' = PubDateParsed item"
proof (induction kids arbitrary: item feed exts)
  case Nil
  then show ?case by simp
next
  case (Cons k ks)
  from Cons.prems(2) obtain item1 feed1 exts1 where
    k: "item_child C (item, feed, exts) k = Some (item1, feed1, exts1)"
    and ks: "fold_children (item_child C) ks (item1, feed1, exts1) = Some (item', feed', exts')"
    by (auto split: option.splits)
  from Cons.prems(1) have "\<not> is_news C k" "\<forall>k\<in>set ks. \<not> is_news C k" by simp_all
  from item_child_keeps_news [OF this(1) k] Cons.IH [OF this(2) ks] show ?case by simp
qed

lemma item_children_extensions:
  "fold_children (item_child C) kids (item, feed, exts) = Some (item', feed', exts') \<Longrightarrow>
     (if \<exists>k\<in>set kids. is_extension C k
      then Extensions item' = Some exts' \<and> exts' \<noteq> []
      else Extensions item' = Extensions item \<and> exts' = exts)"
proof (induction kids arbitrary: item feed exts)
  case Nil
  then show ?case by simp
next
  case (Cons k ks)
  from Cons.prems obtain item1 feed1 exts1 where
    k: "item_child C (item, feed, exts) k = Some (item1, feed1, exts1)"
    and ks: "fold_children (item_child C) ks (item1, feed1, exts1) = Some (item', feed', exts')"
    by (auto split: option.splits)
  from k have "if is_extension C k then Extensions item1 = Some exts1 \<and> exts1 \<noteq> []
               else Extensions item1 = Extensions item \<and> exts1 = exts"
    by (cases k) (auto simp: is_extension_def with_news_def split: if_splits option.splits)
  with Cons.IH [OF ks] show ?case
    by (auto split: if_splits)
qed

text \<open>
  C8: the item parsed from a url element without a news child has an empty Title and no
  PubDateParsed.
\<close>

theorem parseItem_without_news:
  assumes "\<forall>k\<in>set kids. \<not> is_news C k"
    and "parseItem C (enter s n as kids rest) = Inr (item, feed, p')"
  shows "Item.Title item = [] \<and> PubDateParsed item = None"
proof -
  have d: "decoder (enter s n as kids rest) = flats kids @ EndElement s n # rest"
    by (simp add: enter_def)
  from parseItem_tree [OF d assms(2)] have "item_of C kids = Some (item, feed)" by simp
  then obtain item0 exts where
    f: "fold_children (item_child C) kids (new_Item, new_Feed, []) = Some (item0, feed, exts)"
    and i: "item = (if exts \<noteq> [] then item0\<lparr>Extensions := Some exts\<rparr> else item0)"
    by (auto simp: item_of_def split: option.splits)
  from item_children_keep_news [OF assms(1) f] i show ?thesis
    by (simp add: new_Item_def)
qed

theorem parseItem_without_news_witness:
  "parseItem demo_shared (enter [] ''url'' [] [leaf ''loc'' ''http://a/''] [])
     = Inr (item_a, new_Feed, after_end ''url'' [])
   \<and> Item.Title item_a = [] \<and> PubDateParsed item_a = None"
proof -
  have h1: "\<forall>k\<in>set [leaf ''loc'' ''http://a/'']. \<not> is_news demo_shared k" by code_simp
  have h2: "parseItem demo_shared (enter [] ''url'' [] [leaf ''loc'' ''http://a/''] [])
     = Inr (item_a, new_Feed, after_end ''url'' [])"
    by code_simp
  show ?thesis using h2 parseItem_without_news [OF h1 h2] by simp
qed

text \<open>
  C7: the Extensions of a parsed item are set (non-nil) exactly when the url element has a
  child in an extension namespace.
\<close>

theorem parseItem_Extensions:
  assumes "parseItem C (enter s n as kids rest) = Inr (item, feed, p')"
  shows "Extensions item \<noteq> None \<longleftrightarrow> (\<exists>k\<in>set kids. is_extension C k)"
proof -
  have d: "decoder (enter s n as kids rest) = flats kids @ EndElement s n # rest"
    by (simp add: enter_def)
  from parseItem_tree [OF d assms] have "item_of C kids = Some (item, feed)" by simp
  then obtain item0 exts where
    f: "fold_children (item_child C) kids (new_Item, new_Feed, []) = Some (item0, feed, exts)"
    and i: "item = (if exts \<noteq> [] then item0\<lparr>Extensions := Some exts\<rparr> else item0)"
    by (auto simp: item_of_def split: option.splits)
  from item_children_extensions [OF f] i show ?thesis
    by (auto simp: new_Item_def split: if_splits)
qed

theorem parseItem_Extensions_witness:
  "parseItem demo_shared (enter [] ''URL'' [] [leaf ''loc'' ''http://b/'', ext_node] [])
     = Inr (item_b, new_Feed, after_end ''URL'' [])
   \<and> Extensions item_b \<noteq> None
   \<and> is_extension demo_shared ext_node"
proof -
  have h: "parseItem demo_shared (enter [] ''URL'' [] [leaf ''loc'' ''http://b/'', ext_node] [])
     = Inr (item_b, new_Feed, after_end ''URL'' [])"
    by code_simp
  have e: "is_extension demo_shared ext_node" by code_simp
  show ?thesis using h e parseItem_Extensions [OF h] by simp
qed

section \<open>A loc after a non-empty link\<close>

text \<open>
  A url element that begins with a loc of non-empty text and has another loc child later
  is never parsed into an item.
\<close>

lemma item_children_keep_link:
  "fold_children (item_child C) kids (item, feed, exts) = Some (item', feed', exts') \<Longrightarrow>
     Item.Link item \<noteq> [] \<Longrightarrow> Item.Link item' = Item.Link item"
proof (induction kids arbitrary: item feed exts)
  case Nil
  then show ?case by simp
next
  case (Cons k ks)
  from Cons.prems(1) obtain item1 feed1 exts1 where
    k: "item_child C (item, feed, exts) k = Some (item1, feed1, exts1)"
    and ks: "fold_children (item_child C) ks (item1, feed1, exts1) = Some (item', feed', exts')"
    by (auto split: option.splits)
  from k Cons.prems(2) have "Item.Link item1 = Item.Link item"
    by (cases k) (auto simp: with_news_def split: if_splits option.splits)
  with Cons.IH [OF ks] Cons.prems(2) show ?case by simp
qed

lemma parseItem_loc_after_link:
  assumes "\<not> recognizes C fs" "ToLower fn = ''loc''" "text_of C fc = Some t" "t \<noteq> []"
    and "\<not> recognizes C ls" "ToLower ln = ''loc''"
  shows "\<exists>err. parseItem C
           (enter s n as (Element fs fn fas fc # mid @ Element ls ln las lc # post) rest)
             = Inl err"
proof (rule ccontr)
  let ?kids = "Element fs fn fas fc # mid @ Element ls ln las lc # post"
  assume "\<not> ?thesis"
  then obtain item feed p' where ok: "parseItem C (enter s n as ?kids rest) = Inr (item, feed, p')"
    by (cases "parseItem C (enter s n as ?kids rest)") auto
  have d: "decoder (enter s n as ?kids rest) = flats ?kids @ EndElement s n # rest"
    by (simp add: enter_def)
  from parseItem_tree [OF d ok] obtain st where
    f: "fold_children (item_child C) ?kids (new_Item, new_Feed, []) = Some st"
    by (auto simp: item_of_def split: option.splits)
  from assms(1-4) have first: "item_child C (new_Item, new_Feed, []) (Element fs fn fas fc)
      = Some (new_Item\<lparr>Item.Link := t\<rparr>, new_Feed, [])"
    by (simp add: new_Item_def)
  with f obtain i1 f1 e1 where
    m: "fold_children (item_child C) mid (new_Item\<lparr>Item.Link := t\<rparr>, new_Feed, []) = Some (i1, f1, e1)"
    and l: "item_child C (i1, f1, e1) (Element ls ln las lc) \<noteq> None"
    by (auto simp: fold_children_append split: option.splits)
  from item_children_keep_link [OF m] assms(4) have "Item.Link i1 \<noteq> []" by simp
  with l assms(5,6) show False by simp
qed

section \<open>The date parser does not decide the outcome\<close>

lemma ParseText_date [simp]: "ParseText (C\<lparr>ParseDate := d\<rparr>) p = ParseText C p"
  by (simp add: ParseText_def split: option.splits)

lemma IsExtension_date [simp]: "IsExtension (C\<lparr>ParseDate := d\<rparr>) p = IsExtension C p"
  by (simp add: IsExtension_def)

lemma parsePublication_loop_date:
  "parsePublication_loop (C\<lparr>ParseDate := d\<rparr>) news p = parsePublication_loop C news p"
proof (induction "length (decoder p)" arbitrary: news p rule: less_induct)
  case less
  have IH: "parsePublication_loop (C\<lparr>ParseDate := d\<rparr>) news' p'
      = parsePublication_loop C news' p'" if "length (decoder p') < length (decoder p)"
    for news' p'
    using less.hyps [OF that] .
  show ?case
    apply (subst parsePublication_loop.simps [of C news p])
    apply (subst parsePublication_loop.simps [of "C\<lparr>ParseDate := d\<rparr>" news p])
    apply (auto split: sum.splits simp: Let_def intro!: IH
        dest!: NextTag_shorter ParseText_shorter
        intro: le_less_trans [OF Skip_shorter] less_trans)
    done
qed

lemma parsePublication_date [simp]:
  "parsePublication (C\<lparr>ParseDate := d\<rparr>) p = parsePublication C p"
  by (simp add: parsePublication_def parsePublication_loop_date split: option.splits)

lemma parseImage_loop_date:
  "parseImage_loop (C\<lparr>ParseDate := d\<rparr>) img p = parseImage_loop C img p"
proof (induction "length (decoder p)" arbitrary: img p rule: less_induct)
  case less
  have IH: "parseImage_loop (C\<lparr>ParseDate := d\<rparr>) img' p' = parseImage_loop C img' p'"
    if "length (decoder p') < length (decoder p)" for img' p'
    using less.hyps [OF that] .
  show ?case
    apply (subst parseImage_loop.simps [of C img p])
    apply (subst parseImage_loop.simps [of "C\<lparr>ParseDate := d\<rparr>" img p])
    apply (auto split: sum.splits simp: Let_def intro!: IH
        dest!: NextTag_shorter ParseText_shorter
        intro: le_less_trans [OF Skip_shorter] less_trans)
    done
qed

lemma parseImage_date [simp]:
  "parseImage (C\<lparr>ParseDate := d\<rparr>) p = parseImage C p"
  by (simp add: parseImage_def parseImage_loop_date split: option.splits)

lemma parseNews_loop_date:
  "parseNews_loop (C\<lparr>ParseDate := d\<rparr>) news p = parseNews_loop C news p"
proof (induction "length (decoder p)" arbitrary: news p rule: less_induct)
  case less
  have IH: "parseNews_loop (C\<lparr>ParseDate := d\<rparr>) news' p' = parseNews_loop C news' p'"
    if "length (decoder p') < length (decoder p)" for news' p'
    using less.hyps [OF that] .
  show ?case
    apply (subst parseNews_loop.simps [of C news p])
    apply (subst parseNews_loop.simps [of "C\<lparr>ParseDate := d\<rparr>" news p])
    apply (auto split: sum.splits simp: Let_def intro!: IH
        dest!: NextTag_shorter ParseText_shorter parsePublication_shorter
        intro: le_less_trans [OF Skip_shorter] less_trans)
    done
qed

lemma parseNews_date [simp]:
  "parseNews (C\<lparr>ParseDate := d\<rparr>) p = parseNews C p"
  by (simp add: parseNews_def parseNews_loop_date split: option.splits)

lemma parseItem_loop_date:
  "same_but_date item2 item \<Longrightarrow>
   parseItem_loop C item feed exts p = Inr (item', feed', exts', p') \<Longrightarrow>
   \<exists>item2'. parseItem_loop (C\<lparr>ParseDate := d\<rparr>) item2 feed exts p
               = Inr (item2', feed', exts', p') \<and> same_but_date item2' item'"
proof (induction "length (decoder p)" arbitrary: item2 item feed exts p rule: less_induct)
  case less
  let ?D = "C\<lparr>ParseDate := d\<rparr>"
  have IH: "\<exists>item2'. parseItem_loop ?D i2 f e q = Inr (item2', feed', exts', p')
              \<and> same_but_date item2' item'"
    if "length (decoder q) < length (decoder p)" "same_but_date i2 i"
      "parseItem_loop C i f e q = Inr (item', feed', exts', p')" for i2 i f e q
    using less.hyps [OF that] .
  from less.prems(2) obtain tok p1 where nt: "NextTag p = Inr (tok, p1)"
    by (subst (asm) parseItem_loop.simps) (auto split: sum.splits)
  note sh = NextTag_shorter [OF nt]
  have link: "Item.Link item2 = Item.Link item"
    using less.prems(1) by (simp add: same_but_date_def)
  note run = less.prems(2) [unfolded parseItem_loop.simps [of C item feed exts p]]
  show ?case
  proof (cases "tok = EndTag")
    case True
    with run nt less.prems(1) show ?thesis
      by (subst parseItem_loop.simps) simp
  next
    case notEnd: False
    show ?thesis
    proof (cases "tok = StartTag")
      case False
      with run nt notEnd have "parseItem_loop C item feed exts p1 = Inr (item', feed', exts', p')"
        by simp
      from IH [OF sh less.prems(1) this] False notEnd nt show ?thesis
        by (subst parseItem_loop.simps) simp
    next
      case start: True
      show ?thesis
      proof (cases "IsExtension C p1")
        case True
        with run nt start obtain ext p2 where
          pe: "ParseExtension exts p1 = Inr (ext, p2)"
          and r: "parseItem_loop C (item\<lparr>Extensions := Some ext\<rparr>) feed ext p2
                    = Inr (item', feed', exts', p')"
          by (auto simp: Let_def split: sum.splits)
        have "same_but_date (item2\<lparr>Extensions := Some ext\<rparr>) (item\<lparr>Extensions := Some ext\<rparr>)"
          using less.prems(1) by (simp add: same_but_date_def)
        from IH [OF less_trans [OF ParseExtension_shorter [OF pe] sh] this r]
        show ?thesis
          using nt start True pe by (subst parseItem_loop.simps) (simp add: Let_def)
      next
        case noExt: False
        show ?thesis
        proof (cases "ToLower (XMLPullParser.Name p1) = ''news''")
          case True
          with run nt start noExt obtain result p2 item1 where
            pn: "parseNews C p1 = Inr (result, p2)"
            and i1: "item1 = (case ParseDate C (PublicationDate result) of
                       Inr date \<Rightarrow> item\<lparr>Item.Title := News.Title result,
                           PubDate := PublicationDate result,
                           PubDateParsed := Some (UTC date)\<rparr>
                     | Inl err \<Rightarrow> item\<lparr>Item.Title := News.Title result,
                           PubDate := PublicationDate result\<rparr>)"
            and r: "parseItem_loop C item1
                      (feed\<lparr>Feed.Title := News.Name result,
                         Feed.Language := News.Language result\<rparr>) exts p2
                    = Inr (item', feed', exts', p')"
            by (auto simp: Let_def split: sum.splits)
          let ?i2 = "(case d (PublicationDate result) of
                       Inr date \<Rightarrow> item2\<lparr>Item.Title := News.Title result,
                           PubDate := PublicationDate result,
                           PubDateParsed := Some (UTC date)\<rparr>
                     | Inl err \<Rightarrow> item2\<lparr>Item.Title := News.Title result,
                           PubDate := PublicationDate result\<rparr>)"
          have "same_but_date ?i2 item1"
            using less.prems(1) by (simp add: same_but_date_def i1 split: sum.splits)
          from IH [OF less_trans [OF parseNews_shorter [OF pn] sh] this r]
          show ?thesis
            using nt start noExt True pn
            by (subst parseItem_loop.simps) (simp add: Let_def split: sum.splits)
        next
          case noNews: False
          show ?thesis
          proof (cases "ToLower (XMLPullParser.Name p1) = ''loc''")
            case True
            show ?thesis
            proof (cases "Item.Link item = []")
              case False
              with run nt start noExt noNews True
              have "parseItem_loop C item feed exts p1 = Inr (item', feed', exts', p')"
                by (simp add: Let_def)
              from IH [OF sh less.prems(1) this] show ?thesis
                using nt start noExt noNews True False link
                by (subst parseItem_loop.simps) (simp add: Let_def)
            next
              case empty: True
              with run nt start noExt noNews \<open>ToLower (XMLPullParser.Name p1) = ''loc''\<close>
              obtain result p2 where
                pt: "ParseText C p1 = Inr (result, p2)"
                and r: "parseItem_loop C (item\<lparr>Item.Link := result\<rparr>) feed exts p2
                          = Inr (item', feed', exts', p')"
                by (auto simp: Let_def split: sum.splits)
              have "same_but_date (item2\<lparr>Item.Link := result\<rparr>) (item\<lparr>Item.Link := result\<rparr>)"
                using less.prems(1) by (simp add: same_but_date_def)
              from IH [OF less_trans [OF ParseText_shorter [OF pt] sh] this r]
              show ?thesis
                using nt start noExt noNews \<open>ToLower (XMLPullParser.Name p1) = ''loc''\<close>
                  empty link pt
                by (subst parseItem_loop.simps) (simp add: Let_def)
            qed
          next
            case noLoc: False
            show ?thesis
            proof (cases "ToLower (XMLPullParser.Name p1) = ''image''")
              case True
              with run nt start noExt noNews noLoc obtain result p2 where
                pi: "parseImage C p1 = Inr (result, p2)"
                and r: "parseItem_loop C (item\<lparr>Image := Some result\<rparr>) feed exts p2
                          = Inr (item', feed', exts', p')"
                by (auto simp: Let_def split: sum.splits)
              have "same_but_date (item2\<lparr>Image := Some result\<rparr>) (item\<lparr>Image := Some result\<rparr>)"
                using less.prems(1) by (simp add: same_but_date_def)
              from IH [OF less_trans [OF parseImage_shorter [OF pi] sh] this r]
              show ?thesis
                using nt start noExt noNews noLoc True pi
                by (subst parseItem_loop.simps) (simp add: Let_def)
            next
              case False
              with run nt start noExt noNews noLoc
              have "parseItem_loop C item feed exts (Skip p1) = Inr (item', feed', exts', p')"
                by (simp add: Let_def)
              from IH [OF le_less_trans [OF Skip_shorter sh] less.prems(1) this]
              show ?thesis
                using nt start noExt noNews noLoc False
                by (subst parseItem_loop.simps) (simp add: Let_def)
            qed
          qed
        qed
      qed
    qed
  qed
qed

lemma parseItem_date:
  assumes "parseItem C p = Inr (item, feed, p')"
  shows "\<exists>item2. parseItem (C\<lparr>ParseDate := d\<rparr>) p = Inr (item2, feed, p')
           \<and> same_but_date item2 item"
proof -
  from assms obtain item0 exts where
    loop: "parseItem_loop C new_Item new_Feed [] p = Inr (item0, feed, exts, p')"
    and item: "item = (if length exts > 0 then item0\<lparr>Extensions := Some exts\<rparr> else item0)"
    and e: "Expect StartTag ''url'' p = None" "Expect EndTag ''url'' p' = None"
    by (auto simp: parseItem_def Let_def split: option.splits sum.splits)
  have "same_but_date new_Item new_Item" by (simp add: same_but_date_def)
  from parseItem_loop_date [OF this loop, of d] obtain item2' where
    l2: "parseItem_loop (C\<lparr>ParseDate := d\<rparr>) new_Item new_Feed [] p
           = Inr (item2', feed, exts, p')"
    and s: "same_but_date item2' item0"
    by blast
  from l2 e s item show ?thesis
    by (simp add: parseItem_def Let_def same_but_date_def)
qed

lemma news_child_keeps_date:
  "\<not> is_publication_date k \<Longrightarrow> news_child C news k = Some news' \<Longrightarrow>
     PublicationDate news' = PublicationDate news"
  by (cases k) (auto simp: is_publication_date_def split: if_splits)

lemma news_children_keep_date:
  "\<forall>k\<in>set ks. \<not> is_publication_date k \<Longrightarrow>
   fold_children (news_child C) ks news = Some news' \<Longrightarrow>
     PublicationDate news' = PublicationDate news"
proof (induction ks arbitrary: news)
  case Nil
  then show ?case by simp
next
  case (Cons k ks)
  from Cons.prems(2) obtain news1 where
    k: "news_child C news k = Some news1"
    and ks: "fold_children (news_child C) ks news1 = Some news'"
    by (auto split: option.splits)
  from Cons.prems(1) have "\<not> is_publication_date k" "\<forall>k\<in>set ks. \<not> is_publication_date k"
    by simp_all
  from news_child_keeps_date [OF this(1) k] Cons.IH [OF this(2) ks] show ?case by simp
qed

lemma news_of_publication_date:
  assumes "news_of C (cpre @ Element ds dn das dc # cpost) = Some r"
    and "ToLower dn = ''publication_date''"
    and "\<forall>k\<in>set cpost. \<not> is_publication_date k"
  shows "text_of C dc = Some (PublicationDate r)"
proof -
  from assms(1) obtain n1 n2 where
    "news_child C n1 (Element ds dn das dc) = Some n2"
    and post: "fold_children (news_child C) cpost n2 = Some r"
    by (auto simp: news_of_def fold_children_append split: option.splits)
  with assms(2) have "text_of C dc = Some (PublicationDate n2)"
    by auto
  with news_children_keep_date [OF assms(3) post] show ?thesis by simp
qed

text \<open>
  C6 (amended): for an item parsed from a url element, take the last news child of the
  element, carrying a publication_date (the last one, if it has several). PubDate is the
  text of that publication_date. When the date parser accepts the text, PubDateParsed is
  the parsed date moved to UTC (the same instant, zone offset 0). When it does not,
  PubDateParsed is left as the children before that news child set it, that is, as in the
  item parsed from the url element cut off there: unset when no news child comes earlier.
  And whatever the date parser answers, the item is parsed all the same, up to
  PubDateParsed, so a date that does not parse never aborts the parse.
\<close>

theorem parseItem_publication_date:
  assumes ok: "parseItem C
      (enter s n as (pre @ Element ns nn nas (cpre @ Element ds dn das dc # cpost) # post) rest)
        = Inr (item, feed, p')"
    and news: "\<not> recognizes C ns" "ToLower nn = ''news''"
    and last: "\<forall>k\<in>set post. \<not> is_news C k"
    and pd: "ToLower dn = ''publication_date''" "\<forall>k\<in>set cpost. \<not> is_publication_date k"
  shows "text_of C dc = Some (PubDate item)
    \<and> (case ParseDate C (PubDate item) of
          Inr date \<Rightarrow> PubDateParsed item = Some (UTC date)
        | Inl err \<Rightarrow>
            (\<exists>item0 feed0. parseItem C (enter s n as pre rest)
                              = Inr (item0, feed0, after_end n rest)
               \<and> PubDateParsed item = PubDateParsed item0))
    \<and> ((\<forall>k\<in>set pre. \<not> is_news C k) \<longrightarrow>
          PubDateParsed item =
            (case ParseDate C (PubDate item) of Inl err \<Rightarrow> None | Inr date \<Rightarrow> Some (UTC date)))
    \<and> instant (UTC date) = instant date \<and> zone (UTC date) = 0
    \<and> (\<exists>item2. parseItem (C\<lparr>ParseDate := d\<rparr>)
          (enter s n as (pre @ Element ns nn nas (cpre @ Element ds dn das dc # cpost) # post) rest)
            = Inr (item2, feed, p')
          \<and> same_but_date item2 item)"
proof -
  let ?c = "cpre @ Element ds dn das dc # cpost"
  let ?kids = "pre @ Element ns nn nas ?c # post"
  have dec: "decoder (enter s n as ?kids rest) = flats ?kids @ EndElement s n # rest"
    by (simp add: enter_def)
  from ok have url: "ToLower n = ''url''"
    by (auto simp: parseItem_def Expect_def enter_def lower_literals
        split: option.splits if_splits)
  from parseItem_tree [OF dec ok] have "item_of C ?kids = Some (item, feed)" by simp
  then obtain i1 f1 e1 i2 f2 e2 i3 e3 where
    a: "fold_children (item_child C) pre (new_Item, new_Feed, []) = Some (i1, f1, e1)"
    and b: "item_child C (i1, f1, e1) (Element ns nn nas ?c) = Some (i2, f2, e2)"
    and c: "fold_children (item_child C) post (i2, f2, e2) = Some (i3, feed, e3)"
    and i: "item = (if e3 \<noteq> [] then i3\<lparr>Extensions := Some e3\<rparr> else i3)"
    by (auto simp: item_of_def fold_children_append split: option.splits)
  let ?i0 = "if e1 \<noteq> [] then i1\<lparr>Extensions := Some e1\<rparr> else i1"
  from a have "item_of C pre = Some (?i0, f1)" by (simp add: item_of_def)
  from parseItem_complete [OF url this]
  have before: "parseItem C (enter s n as pre rest) = Inr (?i0, f1, after_end n rest)" .
  from b news obtain r where r: "news_of C ?c = Some r" and i2: "i2 = with_news C r i1"
    by auto
  from i2 have "PubDate i2 = PublicationDate r"
    and "PubDateParsed i2 =
      (case date_of C (PublicationDate r) of None \<Rightarrow> PubDateParsed i1 | Some t \<Rightarrow> Some t)"
    by (auto simp: with_news_def split: option.splits)
  moreover have "PubDateParsed ?i0 = PubDateParsed i1" by simp
  ultimately have pdate: "PubDate item = PublicationDate r"
    and parsed: "PubDateParsed item =
      (case date_of C (PubDate item) of None \<Rightarrow> PubDateParsed ?i0 | Some t \<Rightarrow> Some t)"
    using item_children_keep_news [OF last c] i
    by (auto split: if_splits option.splits)
  have first: "PubDateParsed ?i0 = None" if "\<forall>k\<in>set pre. \<not> is_news C k"
    using item_children_keep_news [OF that a] by (simp add: new_Item_def)
  from parsed before have two: "case ParseDate C (PubDate item) of
          Inr date \<Rightarrow> PubDateParsed item = Some (UTC date)
        | Inl err \<Rightarrow>
            (\<exists>item0 feed0. parseItem C (enter s n as pre rest)
                              = Inr (item0, feed0, after_end n rest)
               \<and> PubDateParsed item = PubDateParsed item0)"
    by (auto simp: date_of_def split: sum.splits)
  from parsed first have three: "(\<forall>k\<in>set pre. \<not> is_news C k) \<longrightarrow>
          PubDateParsed item =
            (case ParseDate C (PubDate item) of Inl err \<Rightarrow> None | Inr date \<Rightarrow> Some (UTC date))"
    by (auto simp: date_of_def split: sum.splits)
  from pdate news_of_publication_date [OF r pd] have one: "text_of C dc = Some (PubDate item)"
    by simp
  from one two three parseItem_date [OF ok, of d] show ?thesis
    by (simp add: UTC_def)
qed

theorem parseItem_publication_date_witness:
  "parseItem demo_shared
     (enter [] ''url'' []
        ([leaf ''loc'' ''http://a/''] @ Element [] ''news'' []
           ([Element [] ''publication'' [] [leaf ''name'' ''N'', leaf ''language'' ''en'']]
            @ Element [] ''publication_date'' [] [TextNode ''2024-01-02T00:00:00Z'']
            # [leaf ''title'' ''T'']) # []) [])
     = Inr (item_dated,
            \<lparr>Feed.Title = ''N'', Items = [], Language = ''en'', Version = []\<rparr>,
            after_end ''url'' [])
   \<and> text_of demo_shared [TextNode ''2024-01-02T00:00:00Z''] = Some (PubDate item_dated)
   \<and> PubDateParsed item_dated = Some \<lparr>instant = 1704153600, zone = 0\<rparr>
   \<and> parseItem demo_shared
     (enter [] ''url'' []
        ([] @ Element [] ''news'' [] ([] @ Element [] ''publication_date'' [] [TextNode ''bad''] # [])
           # []) [])
     = Inr (item_undated, new_Feed, after_end ''url'' [])
   \<and> text_of demo_shared [TextNode ''bad''] = Some (PubDate item_undated)
   \<and> PubDateParsed item_undated = None"
proof -
  have ok: "parseItem demo_shared
     (enter [] ''url'' []
        ([leaf ''loc'' ''http://a/''] @ Element [] ''news'' []
           ([Element [] ''publication'' [] [leaf ''name'' ''N'', leaf ''language'' ''en'']]
            @ Element [] ''publication_date'' [] [TextNode ''2024-01-02T00:00:00Z'']
            # [leaf ''title'' ''T'']) # []) [])
     = Inr (item_dated,
            \<lparr>Feed.Title = ''N'', Items = [], Language = ''en'', Version = []\<rparr>,
            after_end ''url'' [])"
    by code_simp
  have ok2: "parseItem demo_shared
     (enter [] ''url'' []
        ([] @ Element [] ''news'' [] ([] @ Element [] ''publication_date'' [] [TextNode ''bad''] # [])
           # []) [])
     = Inr (item_undated, new_Feed, after_end ''url'' [])"
    by code_simp
  have n1: "\<not> recognizes demo_shared []" by code_simp
  have n2: "ToLower ''news'' = ''news''" by code_simp
  have l: "\<forall>k\<in>set []. \<not> is_news demo_shared k" by simp
  have p1: "ToLower ''publication_date'' = ''publication_date''" by code_simp
  have p2: "\<forall>k\<in>set [leaf ''title'' ''T'']. \<not> is_publication_date k" by code_simp
  have p3: "\<forall>k\<in>set []. \<not> is_publication_date k" by simp
  have s1: "\<forall>k\<in>set [leaf ''loc'' ''http://a/'']. \<not> is_news demo_shared k" by code_simp
  have d1: "ParseDate demo_shared (PubDate item_dated)
      = Inr \<lparr>instant = 1704153600, zone = 0\<rparr>" by code_simp
  have d2: "ParseDate demo_shared (PubDate item_undated) = Inl DateError" by code_simp
  note good = parseItem_publication_date [OF ok n1 n2 l p1 p2,
      of "\<lparr>instant = 0, zone = 0\<rparr>" "\<lambda>s. Inl DateError"]
  note bad = parseItem_publication_date [OF ok2 n1 n2 l p1 p3,
      of "\<lparr>instant = 0, zone = 0\<rparr>" "\<lambda>s. Inl DateError"]
  from good s1 d1 have g: "text_of demo_shared [TextNode ''2024-01-02T00:00:00Z'']
        = Some (PubDate item_dated)
      \<and> PubDateParsed item_dated = Some \<lparr>instant = 1704153600, zone = 0\<rparr>"
    by (simp add: UTC_def)
  from bad d2 have b: "text_of demo_shared [TextNode ''bad''] = Some (PubDate item_undated)
      \<and> PubDateParsed item_undated = None"
    by simp
  from ok ok2 g b show ?thesis by simp
qed

text \<open>
  C6 as stated fails: with two news children, the first with a date that parses and the
  second with one that does not, PubDate is the second text and PubDateParsed stays set.
\<close>

theorem parseItem_stale_date:
  "parseItem demo_shared (enter [] ''url'' [] stale_kids [])
     = Inr (item_stale, new_Feed, after_end ''url'' [])
   \<and> PubDate item_stale = ''bad''
   \<and> ParseDate demo_shared ''bad'' = Inl DateError
   \<and> PubDateParsed item_stale \<noteq> None"
  by code_simp

end
